theory Spec2Isabelle
  imports Main "HOL-Library.Sublist"
begin

section \<open>The character driver of embxx (embxx/driver/Character.h)\<close>

text \<open>
  The driver sits between a peripheral control object (the device) and an event loop.
  Every member function of the header becomes a function on an explicit state. The device
  is a template parameter of the driver, so here it is a record of operations over a
  device state \<open>'d\<close>: every theorem holds for every device. Pointers into the caller's
  buffers are integer addresses into one store \<open>memory\<close>; \<open>std::size_t\<close> values are
  natural numbers. A failed \<open>GASSERT\<close> halts the program (the fail function does not
  return), so a run that hits one ends in \<open>Inl AssertFailed\<close> and nothing of it is
  observed afterwards.
\<close>

subsection \<open>Error status, event loop, device\<close>

text \<open>
  Modelled from the spec: the error kinds of embxx/error/ErrorStatus.h (not part of the
  header): nominal completion, cancellation, buffer exhaustion, and whatever the
  peripheral reports on completion. An \<open>ErrorStatus\<close> converts to \<open>true\<close> exactly when
  it is not \<open>Success\<close>.
\<close>

datatype ErrorCode = Success | Aborted | BufferOverflow | DeviceError nat

definition isError :: "ErrorCode \<Rightarrow> bool" where
  "isError es = (es \<noteq> Success)"

datatype fault = AssertFailed

datatype ctx = EventLoopContext | InterruptContext

text \<open>
  A bound handler is what \<open>std::bind(handler, es, sizeToReport)\<close> builds. The first
  component records which entry point of the event loop received it:
  \<open>True\<close> for \<open>postInterruptCtx\<close>, \<open>False\<close> for \<open>post\<close>.
\<close>

type_synonym 'h bound_handler = "bool \<times> 'h \<times> ErrorCode \<times> nat"

text \<open>
  Modelled from the spec: the event loop (embxx/util/EventLoop.h is not part of the
  header). \<open>post\<close> and \<open>postInterruptCtx\<close> put a nullary callable on the loop's run
  queue and return \<open>true\<close> on success; the run queue is bounded, and posting to a full
  queue returns \<open>false\<close> and stores nothing. Running the callables is the loop's business
  and not the driver's, so \<open>elQueue\<close> keeps everything that was posted, in posting order.
\<close>

record 'h EventLoop =
  elQueue :: "'h bound_handler list"
  elCapacity :: nat

definition post :: "'h \<times> ErrorCode \<times> nat \<Rightarrow> 'h EventLoop \<Rightarrow> bool \<times> 'h EventLoop" where
  "post b e =
     (if length (elQueue e) < elCapacity e
      then (True, e\<lparr>elQueue := elQueue e @ [(False, b)]\<rparr>)
      else (False, e))"

definition postInterruptCtx :: "'h \<times> ErrorCode \<times> nat \<Rightarrow> 'h EventLoop \<Rightarrow> bool \<times> 'h EventLoop" where
  "postInterruptCtx b e =
     (if length (elQueue e) < elCapacity e
      then (True, e\<lparr>elQueue := elQueue e @ [(True, b)]\<rparr>)
      else (False, e))"

text \<open>
  The interface the driver requires of \<open>TDevice\<close> (the doc comment of class
  \<open>Character\<close>), as state transformers on the device's own state.
\<close>

record ('d, 'c) Device =
  suspend :: "'d \<Rightarrow> bool \<times> 'd"
  resume :: "'d \<Rightarrow> 'd"
  startRead :: "nat \<Rightarrow> ctx \<Rightarrow> 'd \<Rightarrow> 'd"
  cancelRead :: "ctx \<Rightarrow> 'd \<Rightarrow> bool \<times> 'd"
  canRead :: "'d \<Rightarrow> bool"
  read :: "'d \<Rightarrow> 'c \<times> 'd"
  startWrite :: "nat \<Rightarrow> ctx \<Rightarrow> 'd \<Rightarrow> 'd"
  cancelWrite :: "ctx \<Rightarrow> 'd \<Rightarrow> bool \<times> 'd"
  canWrite :: "'d \<Rightarrow> bool"
  writeCh :: "'c \<Rightarrow> 'd \<Rightarrow> 'd"

subsection \<open>Request blocks and handler dispatch\<close>

text \<open>
  \<open>WriteInfo\<close> and \<open>ReadInfo\<close> of the header. A handler is an opaque value of type
  \<open>'h\<close>; an empty handler holder is \<open>None\<close>, and so is a null predicate.
\<close>

record 'h WriteInfo =
  start :: int
  current :: int
  bufSize :: nat
  handler :: "'h option"

record ('h, 'c) ReadInfo = "'h WriteInfo" +
  readUntilPred :: "('c \<Rightarrow> bool) option"

text \<open>
  \<open>details::invokeHandler\<close>, generic in the request block as the template is. Moving the
  handler into the bound object leaves the slot empty (the last assertion of the source).
  The cursor only ever moves up from \<open>start\<close>, so the pointer difference is never
  negative where the driver calls this.
\<close>

definition invokeHandler ::
  "'h EventLoop \<Rightarrow> ('h, 'z) WriteInfo_scheme \<Rightarrow> ErrorCode \<Rightarrow> bool
     \<Rightarrow> fault + ('h EventLoop \<times> ('h, 'z) WriteInfo_scheme)" where
  "invokeHandler e i es interruptCtx =
     (let sizeToReport = nat (current i - start i) in
      case handler i of
        None \<Rightarrow> Inl AssertFailed
      | Some h \<Rightarrow>
          (let i' = i\<lparr>handler := None\<rparr>;
               (postResult, e') =
                 (if interruptCtx then postInterruptCtx (h, es, sizeToReport) e
                  else post (h, es, sizeToReport) e)
           in if postResult then Inr (e', i') else Inl AssertFailed))"

datatype ReadUntilStatus = ReadUntilValid | ReadUntilInvalid

fun seekedCharFound :: "ReadUntilStatus \<Rightarrow> 'c \<Rightarrow> ('h, 'c) ReadInfo \<Rightarrow> bool" where
  "seekedCharFound ReadUntilValid ch i =
     (case readUntilPred i of None \<Rightarrow> False | Some p \<Rightarrow> p ch)"
| "seekedCharFound ReadUntilInvalid ch i = False"

subsection \<open>Engine states\<close>

record ('d, 'c, 'h) SupportBase =
  device :: 'd
  el :: "'h EventLoop"
  memory :: "int \<Rightarrow> 'c"

text \<open>
  Modelled from the spec: \<open>StaticQueue\<close> (embxx/container/StaticQueue.h is not part of
  the header) is a bounded FIFO; it is a list here, front first, and its capacity
  \<open>TMaxPendingReads\<close> is an argument of the enqueue operation.
\<close>

record ('d, 'c, 'h) ReadSupportN = "('d, 'c, 'h) SupportBase" +
  queue :: "('h, 'c) ReadInfo list"

record ('d, 'c, 'h) ReadSupport1 = "('d, 'c, 'h) SupportBase" +
  rinfo :: "('h, 'c) ReadInfo"

record ('d, 'c, 'h) WriteSupport1 = "('d, 'c, 'h) SupportBase" +
  winfo :: "'h WriteInfo"

definition ctxOf :: "bool \<Rightarrow> ctx" where
  "ctxOf interruptCtx = (if interruptCtx then InterruptContext else EventLoopContext)"

subsection \<open>The queued read engine (\<open>CharacterReadSupport\<close>, general template)\<close>

function startNextRead ::
  "('d, 'c) Device \<Rightarrow> bool \<Rightarrow> ('d, 'c, 'h) ReadSupportN \<Rightarrow> fault + ('d, 'c, 'h) ReadSupportN" where
  "startNextRead D interruptCtx st =
     (case queue st of
        [] \<Rightarrow> Inr st
      | i # rest \<Rightarrow>
          if bufSize i = 0 then
            (let code = (if readUntilPred i \<noteq> None then BufferOverflow else Success) in
             case invokeHandler (el st) i code interruptCtx of
               Inl f \<Rightarrow> Inl f
             | Inr (e', i') \<Rightarrow> startNextRead D interruptCtx (st\<lparr>el := e', queue := rest\<rparr>))
          else Inr (st\<lparr>device := startRead D (bufSize i) (ctxOf interruptCtx) (device st)\<rparr>))"
  by pat_completeness auto
termination
  by (relation "measure (\<lambda>(D, c, st). length (queue st))") auto

declare startNextRead.simps [simp del]

definition asyncReadUntilN ::
  "('d, 'c) Device \<Rightarrow> nat \<Rightarrow> int \<Rightarrow> nat \<Rightarrow> ('c \<Rightarrow> bool) option \<Rightarrow> 'h
     \<Rightarrow> ('d, 'c, 'h) ReadSupportN \<Rightarrow> fault + ('d, 'c, 'h) ReadSupportN" where
  "asyncReadUntilN D TMaxPendingReads buf sz pred func st =
     (let (suspended, d1) = suspend D (device st) in
      if TMaxPendingReads \<le> length (queue st) then Inl AssertFailed
      else
        (let st1 = st\<lparr>device := d1,
                      queue := queue st @
                        [\<lparr>start = buf, current = buf, bufSize = sz, handler = Some func,
                          readUntilPred = pred\<rparr>]\<rparr>
         in if suspended then Inr (st1\<lparr>device := resume D d1\<rparr>)
            else if length (queue st1) \<noteq> 1 then Inl AssertFailed
            else startNextRead D False st1))"

definition asyncReadN ::
  "('d, 'c) Device \<Rightarrow> nat \<Rightarrow> int \<Rightarrow> nat \<Rightarrow> 'h
     \<Rightarrow> ('d, 'c, 'h) ReadSupportN \<Rightarrow> fault + ('d, 'c, 'h) ReadSupportN" where
  "asyncReadN D TMaxPendingReads buf sz func st =
     asyncReadUntilN D TMaxPendingReads buf sz None func st"

text \<open>The body of the \<open>std::for_each\<close> in \<open>cancelRead\<close>, run over the queue front to back.\<close>

fun cancelRead_for_each ::
  "'h EventLoop \<Rightarrow> ('h, 'c) ReadInfo list \<Rightarrow> fault + 'h EventLoop" where
  "cancelRead_for_each e [] = Inr e"
| "cancelRead_for_each e (i # rest) =
     (if \<not> current i < start i + int (bufSize i) then Inl AssertFailed
      else case invokeHandler e i Aborted False of
             Inl f \<Rightarrow> Inl f
           | Inr (e', i') \<Rightarrow> cancelRead_for_each e' rest)"

definition cancelReadN ::
  "('d, 'c) Device \<Rightarrow> ('d, 'c, 'h) ReadSupportN \<Rightarrow> fault + (bool \<times> ('d, 'c, 'h) ReadSupportN)" where
  "cancelReadN D st =
     (let (cancelled, d1) = cancelRead D EventLoopContext (device st);
          st1 = st\<lparr>device := d1\<rparr>
      in if \<not> cancelled then
           (if queue st1 \<noteq> [] then Inl AssertFailed else Inr (False, st1))
         else
           (case cancelRead_for_each (el st1) (queue st1) of
              Inl f \<Rightarrow> Inl f
            | Inr e' \<Rightarrow> Inr (True, st1\<lparr>el := e', queue := []\<rparr>)))"

text \<open>
  The loop of \<open>canReadInterruptHandler\<close>. The reference \<open>info\<close> is taken to the front of
  the queue before the loop and never taken again. As long as nothing is popped it is the
  head of \<open>queue st\<close>, and \<open>canReadStepN\<close> is one pass through the body of the loop,
  entered with \<open>canRead\<close> true. The short-circuit branch pops the front; the loop has no
  exit there, so the condition \<open>canRead\<close> is tested again and later passes go through
  the same reference, which now refers to the popped element. The result of a pass
  carries that element when the pass popped it: its handler holder is empty, the handler
  having been moved out by the dispatch.
\<close>

definition canReadStepN ::
  "('d, 'c) Device \<Rightarrow> ReadUntilStatus \<Rightarrow> ('d, 'c, 'h) ReadSupportN
     \<Rightarrow> fault + (('h, 'c) ReadInfo option \<times> ('d, 'c, 'h) ReadSupportN)" where
  "canReadStepN D rs st =
     (case queue st of
        [] \<Rightarrow> Inl AssertFailed
      | i # rest \<Rightarrow>
          if start i + int (bufSize i) \<le> current i then Inl AssertFailed
          else
            (let (ch, d1) = read D (device st);
                 i1 = i\<lparr>current := current i + 1\<rparr>;
                 st1 = st\<lparr>device := d1, memory := (memory st)(current i := ch),
                          queue := i1 # rest\<rparr>
             in if seekedCharFound rs ch i1 then
                  (let (cancelled, d2) = cancelRead D InterruptContext d1;
                       st2 = st1\<lparr>device := d2\<rparr>
                   in if cancelled then
                        (case invokeHandler (el st2) i1 Success True of
                           Inl f \<Rightarrow> Inl f
                         | Inr (e', i2) \<Rightarrow>
                             (case startNextRead D True (st2\<lparr>el := e', queue := rest\<rparr>) of
                                Inl f \<Rightarrow> Inl f
                              | Inr st3 \<Rightarrow> Inr (Some i2, st3)))
                      else Inr (None, st2))
                else Inr (None, st1)))"

text \<open>
  Modelled from the spec: \<open>StaticQueue::popFront\<close> (embxx/container/StaticQueue.h) and the
  holders of the handler and of the predicate (template parameters of the driver) are not
  part of the header. The request block is destroyed when it is popped; its storage stays in
  the queue's array, and here it keeps what it held: the pointers, the size and the
  predicate holder as they were, the handler holder empty. Popping an empty queue is a
  precondition violation of the queue.

  One pass through the body of the loop when \<open>info\<close> refers to the popped element \<open>i\<close>.
  The pass is the same code: the byte is stored through the cursor of \<open>i\<close>, and a
  predicate match with a successful cancel dispatches the handler of \<open>i\<close> (which stops
  at the assertion of \<open>invokeHandler\<close> when the holder is empty), pops the request now at
  the front and starts the next read. What is proved below about such passes is proved
  for every element \<open>i\<close> with an empty handler holder, whatever its other fields hold.
\<close>

definition canReadStepPopped ::
  "('d, 'c) Device \<Rightarrow> ReadUntilStatus \<Rightarrow> ('h, 'c) ReadInfo \<Rightarrow> ('d, 'c, 'h) ReadSupportN
     \<Rightarrow> fault + (('h, 'c) ReadInfo \<times> ('d, 'c, 'h) ReadSupportN)" where
  "canReadStepPopped D rs i st =
     (if start i + int (bufSize i) \<le> current i then Inl AssertFailed
      else
        (let (ch, d1) = read D (device st);
             i1 = i\<lparr>current := current i + 1\<rparr>;
             st1 = st\<lparr>device := d1, memory := (memory st)(current i := ch)\<rparr>
         in if seekedCharFound rs ch i1 then
              (let (cancelled, d2) = cancelRead D InterruptContext d1;
                   st2 = st1\<lparr>device := d2\<rparr>
               in if cancelled then
                    (case invokeHandler (el st2) i1 Success True of
                       Inl f \<Rightarrow> Inl f
                     | Inr (e', i2) \<Rightarrow>
                         (case queue st2 of
                            [] \<Rightarrow> Inl AssertFailed
                          | j # rest \<Rightarrow>
                              (case startNextRead D True (st2\<lparr>el := e', queue := rest\<rparr>) of
                                 Inl f \<Rightarrow> Inl f
                               | Inr st3 \<Rightarrow> Inr (i2, st3))))
                  else Inr (i1, st2))
            else Inr (i1, st1)))"

text \<open>
  The loop: \<open>popped\<close> is \<open>None\<close> while \<open>info\<close> is the front of the queue, and holds the
  popped element afterwards.
\<close>

function canReadLoopN ::
  "('d, 'c) Device \<Rightarrow> ReadUntilStatus \<Rightarrow> ('h, 'c) ReadInfo option \<Rightarrow> ('d, 'c, 'h) ReadSupportN
     \<Rightarrow> fault + ('d, 'c, 'h) ReadSupportN" where
  "canReadLoopN D rs popped st =
     (if \<not> canRead D (device st) then Inr st
      else case popped of
        None \<Rightarrow>
          (case canReadStepN D rs st of
             Inl f \<Rightarrow> Inl f
           | Inr (p, st1) \<Rightarrow> canReadLoopN D rs p st1)
      | Some i \<Rightarrow>
          (case canReadStepPopped D rs i st of
             Inl f \<Rightarrow> Inl f
           | Inr (i1, st1) \<Rightarrow> canReadLoopN D rs (Some i1) st1))"
  by pat_completeness auto
termination
  by (relation "measure (\<lambda>(D, rs, popped, st).
        case popped of
          Some i \<Rightarrow> nat (start i + int (bufSize i) - current i)
        | None \<Rightarrow> (case queue st of [] \<Rightarrow> 0
                   | i # _ \<Rightarrow> nat (start i + int (bufSize i) - current i)))")
     (auto simp: canReadStepN_def canReadStepPopped_def invokeHandler_def Let_def
           split: list.splits if_splits prod.splits sum.splits option.splits)

declare canReadLoopN.simps [simp del]

definition canReadInterruptHandlerN ::
  "('d, 'c) Device \<Rightarrow> ReadUntilStatus \<Rightarrow> ('d, 'c, 'h) ReadSupportN
     \<Rightarrow> fault + ('d, 'c, 'h) ReadSupportN" where
  "canReadInterruptHandlerN D rs st =
     (if queue st = [] then Inl AssertFailed else canReadLoopN D rs None st)"

definition readCompleteInterruptHandlerN ::
  "('d, 'c) Device \<Rightarrow> ReadUntilStatus \<Rightarrow> ErrorCode \<Rightarrow> ('d, 'c, 'h) ReadSupportN
     \<Rightarrow> fault + ('d, 'c, 'h) ReadSupportN" where
  "readCompleteInterruptHandlerN D rs es st =
     (case queue st of
        [] \<Rightarrow> Inl AssertFailed
      | i # rest \<Rightarrow>
          if \<not> start i < current i then Inl AssertFailed
          else
            (case (if isError es \<or> \<not> seekedCharFound rs (memory st (current i - 1)) i
                   then invokeHandler (el st) i es True
                   else invokeHandler (el st) i BufferOverflow True) of
               Inl f \<Rightarrow> Inl f
             | Inr (e', i') \<Rightarrow> startNextRead D True (st\<lparr>el := e', queue := rest\<rparr>)))"

subsection \<open>The single-slot read engine (\<open>CharacterReadSupport\<close>, specialisation for 1)\<close>

definition initRead ::
  "('d, 'c) Device \<Rightarrow> int \<Rightarrow> nat \<Rightarrow> ('d, 'c, 'h) ReadSupport1
     \<Rightarrow> fault + ('d, 'c, 'h) ReadSupport1" where
  "initRead D buf sz st =
     (let i = (rinfo st)\<lparr>start := buf, current := buf, bufSize := sz\<rparr> in
      if sz = 0 then
        (let code = (if readUntilPred i \<noteq> None then BufferOverflow else Success) in
         case invokeHandler (el st) i code False of
           Inl f \<Rightarrow> Inl f
         | Inr (e', i') \<Rightarrow> Inr (st\<lparr>el := e', rinfo := i'\<rparr>))
      else Inr (st\<lparr>device := startRead D sz EventLoopContext (device st), rinfo := i\<rparr>))"

definition asyncRead1 ::
  "('d, 'c) Device \<Rightarrow> int \<Rightarrow> nat \<Rightarrow> 'h \<Rightarrow> ('d, 'c, 'h) ReadSupport1
     \<Rightarrow> fault + ('d, 'c, 'h) ReadSupport1" where
  "asyncRead1 D buf sz func st =
     (if handler (rinfo st) \<noteq> None then Inl AssertFailed
      else initRead D buf sz
             (st\<lparr>rinfo := (rinfo st)\<lparr>handler := Some func, readUntilPred := None\<rparr>\<rparr>))"

definition asyncReadUntil1 ::
  "('d, 'c) Device \<Rightarrow> int \<Rightarrow> nat \<Rightarrow> ('c \<Rightarrow> bool) option \<Rightarrow> 'h \<Rightarrow> ('d, 'c, 'h) ReadSupport1
     \<Rightarrow> fault + ('d, 'c, 'h) ReadSupport1" where
  "asyncReadUntil1 D buf sz pred func st =
     (if handler (rinfo st) \<noteq> None then Inl AssertFailed
      else initRead D buf sz
             (st\<lparr>rinfo := (rinfo st)\<lparr>handler := Some func, readUntilPred := pred\<rparr>\<rparr>))"

definition cancelRead1 ::
  "('d, 'c) Device \<Rightarrow> ('d, 'c, 'h) ReadSupport1 \<Rightarrow> fault + (bool \<times> ('d, 'c, 'h) ReadSupport1)" where
  "cancelRead1 D st =
     (let (cancelled, d1) = cancelRead D EventLoopContext (device st);
          st1 = st\<lparr>device := d1\<rparr>;
          i = rinfo st1
      in if \<not> cancelled then
           (if handler i \<noteq> None then Inl AssertFailed else Inr (False, st1))
         else if handler i = None then Inl AssertFailed
         else if \<not> current i < start i + int (bufSize i) then Inl AssertFailed
         else
           (case invokeHandler (el st1) i Aborted False of
              Inl f \<Rightarrow> Inl f
            | Inr (e', i') \<Rightarrow> Inr (True, st1\<lparr>el := e', rinfo := i'\<rparr>)))"

text \<open>One pass through the body of the \<open>while\<close> loop, entered with \<open>canRead\<close> true.\<close>

definition canReadStep1 ::
  "('d, 'c) Device \<Rightarrow> ReadUntilStatus \<Rightarrow> ('d, 'c, 'h) ReadSupport1
     \<Rightarrow> fault + ('d, 'c, 'h) ReadSupport1" where
  "canReadStep1 D rs st =
     (let i = rinfo st in
      if start i + int (bufSize i) \<le> current i then Inl AssertFailed
      else
        (let (ch, d1) = read D (device st);
             i1 = i\<lparr>current := current i + 1\<rparr>;
             st1 = st\<lparr>device := d1, memory := (memory st)(current i := ch), rinfo := i1\<rparr>
         in if seekedCharFound rs ch i1 then
              (let (cancelled, d2) = cancelRead D InterruptContext d1;
                   st2 = st1\<lparr>device := d2\<rparr>
               in if cancelled then
                    (case invokeHandler (el st2) i1 Success True of
                       Inl f \<Rightarrow> Inl f
                     | Inr (e', i2) \<Rightarrow> Inr (st2\<lparr>el := e', rinfo := i2\<rparr>))
                  else Inr st2)
            else Inr st1))"

function canReadInterruptHandler1 ::
  "('d, 'c) Device \<Rightarrow> ReadUntilStatus \<Rightarrow> ('d, 'c, 'h) ReadSupport1
     \<Rightarrow> fault + ('d, 'c, 'h) ReadSupport1" where
  "canReadInterruptHandler1 D rs st =
     (if \<not> canRead D (device st) then Inr st
      else case canReadStep1 D rs st of
        Inl f \<Rightarrow> Inl f
      | Inr st1 \<Rightarrow> canReadInterruptHandler1 D rs st1)"
  by pat_completeness auto
termination
  by (relation "measure (\<lambda>(D, rs, st).
        nat (start (rinfo st) + int (bufSize (rinfo st)) - current (rinfo st)))")
     (auto simp: canReadStep1_def invokeHandler_def Let_def
           split: option.splits prod.splits if_splits sum.splits)

declare canReadInterruptHandler1.simps [simp del]

definition readCompleteInterruptHandler1 ::
  "ReadUntilStatus \<Rightarrow> ErrorCode \<Rightarrow> ('d, 'c, 'h) ReadSupport1
     \<Rightarrow> fault + ('d, 'c, 'h) ReadSupport1" where
  "readCompleteInterruptHandler1 rs es st =
     (let i = rinfo st in
      case (if isError es \<or> \<not> seekedCharFound rs (memory st (current i - 1)) i
            then invokeHandler (el st) i es True
            else invokeHandler (el st) i BufferOverflow True) of
        Inl f \<Rightarrow> Inl f
      | Inr (e', i') \<Rightarrow> Inr (st\<lparr>el := e', rinfo := i'\<rparr>))"

subsection \<open>The single-slot write engine (\<open>CharacterWriteSupport\<close>, specialisation for 1)\<close>

definition initWrite ::
  "('d, 'c) Device \<Rightarrow> int \<Rightarrow> nat \<Rightarrow> ('d, 'c, 'h) WriteSupport1
     \<Rightarrow> fault + ('d, 'c, 'h) WriteSupport1" where
  "initWrite D buf sz st =
     (let i = (winfo st)\<lparr>start := buf, current := buf, bufSize := sz\<rparr> in
      if sz = 0 then
        (case invokeHandler (el st) i Success False of
           Inl f \<Rightarrow> Inl f
         | Inr (e', i') \<Rightarrow> Inr (st\<lparr>el := e', winfo := i'\<rparr>))
      else Inr (st\<lparr>device := startWrite D sz EventLoopContext (device st), winfo := i\<rparr>))"

definition asyncWrite ::
  "('d, 'c) Device \<Rightarrow> int \<Rightarrow> nat \<Rightarrow> 'h \<Rightarrow> ('d, 'c, 'h) WriteSupport1
     \<Rightarrow> fault + ('d, 'c, 'h) WriteSupport1" where
  "asyncWrite D buf sz func st =
     (if handler (winfo st) \<noteq> None then Inl AssertFailed
      else initWrite D buf sz (st\<lparr>winfo := (winfo st)\<lparr>handler := Some func\<rparr>\<rparr>))"

definition cancelWrite1 ::
  "('d, 'c) Device \<Rightarrow> ('d, 'c, 'h) WriteSupport1 \<Rightarrow> fault + (bool \<times> ('d, 'c, 'h) WriteSupport1)" where
  "cancelWrite1 D st =
     (let (cancelled, d1) = cancelWrite D EventLoopContext (device st);
          st1 = st\<lparr>device := d1\<rparr>;
          i = winfo st1
      in if \<not> cancelled then
           (if handler i \<noteq> None then Inl AssertFailed else Inr (False, st1))
         else if handler i = None then Inl AssertFailed
         else if \<not> current i < start i + int (bufSize i) then Inl AssertFailed
         else
           (case invokeHandler (el st1) i Aborted False of
              Inl f \<Rightarrow> Inl f
            | Inr (e', i') \<Rightarrow> Inr (True, st1\<lparr>el := e', winfo := i'\<rparr>)))"

text \<open>One pass through the body of the \<open>while\<close> loop, entered with \<open>canWrite\<close> true.\<close>

definition canWriteStep ::
  "('d, 'c) Device \<Rightarrow> ('d, 'c, 'h) WriteSupport1 \<Rightarrow> fault + ('d, 'c, 'h) WriteSupport1" where
  "canWriteStep D st =
     (let i = winfo st in
      if start i + int (bufSize i) \<le> current i then Inl AssertFailed
      else Inr (st\<lparr>device := writeCh D (memory st (current i)) (device st),
                   winfo := i\<lparr>current := current i + 1\<rparr>\<rparr>))"

function canWriteInterruptHandler ::
  "('d, 'c) Device \<Rightarrow> ('d, 'c, 'h) WriteSupport1 \<Rightarrow> fault + ('d, 'c, 'h) WriteSupport1" where
  "canWriteInterruptHandler D st =
     (if \<not> canWrite D (device st) then Inr st
      else case canWriteStep D st of
        Inl f \<Rightarrow> Inl f
      | Inr st1 \<Rightarrow> canWriteInterruptHandler D st1)"
  by pat_completeness auto
termination
  by (relation "measure (\<lambda>(D, st).
        nat (start (winfo st) + int (bufSize (winfo st)) - current (winfo st)))")
     (auto simp: canWriteStep_def Let_def split: if_splits)

declare canWriteInterruptHandler.simps [simp del]

definition writeCompleteInterruptHandler ::
  "ErrorCode \<Rightarrow> ('d, 'c, 'h) WriteSupport1 \<Rightarrow> fault + ('d, 'c, 'h) WriteSupport1" where
  "writeCompleteInterruptHandler es st =
     (case invokeHandler (el st) (winfo st) es True of
        Inl f \<Rightarrow> Inl f
      | Inr (e', i') \<Rightarrow> Inr (st\<lparr>el := e', winfo := i'\<rparr>))"

subsection \<open>Runs of the engines\<close>

text \<open>
  What can happen to an engine, one event at a time: a call of the public interface from
  event-loop context, one of the two interrupt handlers the constructor installs at the
  device, or the hardware changing the device's state between two of those.
\<close>

datatype ('d, 'c, 'h) ReadEvent =
    AsyncRead int nat 'h
  | AsyncReadUntil int nat "('c \<Rightarrow> bool) option" 'h
  | CancelRead
  | CanReadInterrupt
  | ReadCompleteInterrupt ErrorCode
  | ReadHardware "'d \<Rightarrow> 'd"

datatype ('d, 'h) WriteEvent =
    AsyncWrite int nat 'h
  | CancelWrite
  | CanWriteInterrupt
  | WriteCompleteInterrupt ErrorCode
  | WriteHardware "'d \<Rightarrow> 'd"

definition dropResult :: "fault + (bool \<times> 's) \<Rightarrow> fault + 's" where
  "dropResult r = (case r of Inl f \<Rightarrow> Inl f | Inr (b, s) \<Rightarrow> Inr s)"

fun stepN ::
  "('d, 'c) Device \<Rightarrow> ReadUntilStatus \<Rightarrow> nat \<Rightarrow> ('d, 'c, 'h) ReadEvent
     \<Rightarrow> ('d, 'c, 'h) ReadSupportN \<Rightarrow> fault + ('d, 'c, 'h) ReadSupportN" where
  "stepN D rs n (AsyncRead buf sz func) st = asyncReadN D n buf sz func st"
| "stepN D rs n (AsyncReadUntil buf sz pred func) st = asyncReadUntilN D n buf sz pred func st"
| "stepN D rs n CancelRead st = dropResult (cancelReadN D st)"
| "stepN D rs n CanReadInterrupt st = canReadInterruptHandlerN D rs st"
| "stepN D rs n (ReadCompleteInterrupt es) st = readCompleteInterruptHandlerN D rs es st"
| "stepN D rs n (ReadHardware f) st = Inr (st\<lparr>device := f (device st)\<rparr>)"

fun runN ::
  "('d, 'c) Device \<Rightarrow> ReadUntilStatus \<Rightarrow> nat \<Rightarrow> ('d, 'c, 'h) ReadEvent list
     \<Rightarrow> ('d, 'c, 'h) ReadSupportN \<Rightarrow> fault + ('d, 'c, 'h) ReadSupportN" where
  "runN D rs n [] st = Inr st"
| "runN D rs n (ev # evs) st =
     (case stepN D rs n ev st of Inl f \<Rightarrow> Inl f | Inr st' \<Rightarrow> runN D rs n evs st')"

fun step1 ::
  "('d, 'c) Device \<Rightarrow> ReadUntilStatus \<Rightarrow> ('d, 'c, 'h) ReadEvent
     \<Rightarrow> ('d, 'c, 'h) ReadSupport1 \<Rightarrow> fault + ('d, 'c, 'h) ReadSupport1" where
  "step1 D rs (AsyncRead buf sz func) st = asyncRead1 D buf sz func st"
| "step1 D rs (AsyncReadUntil buf sz pred func) st = asyncReadUntil1 D buf sz pred func st"
| "step1 D rs CancelRead st = dropResult (cancelRead1 D st)"
| "step1 D rs CanReadInterrupt st = canReadInterruptHandler1 D rs st"
| "step1 D rs (ReadCompleteInterrupt es) st = readCompleteInterruptHandler1 rs es st"
| "step1 D rs (ReadHardware f) st = Inr (st\<lparr>device := f (device st)\<rparr>)"

fun run1 ::
  "('d, 'c) Device \<Rightarrow> ReadUntilStatus \<Rightarrow> ('d, 'c, 'h) ReadEvent list
     \<Rightarrow> ('d, 'c, 'h) ReadSupport1 \<Rightarrow> fault + ('d, 'c, 'h) ReadSupport1" where
  "run1 D rs [] st = Inr st"
| "run1 D rs (ev # evs) st =
     (case step1 D rs ev st of Inl f \<Rightarrow> Inl f | Inr st' \<Rightarrow> run1 D rs evs st')"

fun stepW ::
  "('d, 'c) Device \<Rightarrow> ('d, 'h) WriteEvent
     \<Rightarrow> ('d, 'c, 'h) WriteSupport1 \<Rightarrow> fault + ('d, 'c, 'h) WriteSupport1" where
  "stepW D (AsyncWrite buf sz func) st = asyncWrite D buf sz func st"
| "stepW D CancelWrite st = dropResult (cancelWrite1 D st)"
| "stepW D CanWriteInterrupt st = canWriteInterruptHandler D st"
| "stepW D (WriteCompleteInterrupt es) st = writeCompleteInterruptHandler es st"
| "stepW D (WriteHardware f) st = Inr (st\<lparr>device := f (device st)\<rparr>)"

fun runW ::
  "('d, 'c) Device \<Rightarrow> ('d, 'h) WriteEvent list
     \<Rightarrow> ('d, 'c, 'h) WriteSupport1 \<Rightarrow> fault + ('d, 'c, 'h) WriteSupport1" where
  "runW D [] st = Inr st"
| "runW D (ev # evs) st =
     (case stepW D ev st of Inl f \<Rightarrow> Inl f | Inr st' \<Rightarrow> runW D evs st')"

subsection \<open>Observations on states and runs\<close>

text \<open>The handlers submitted by a run, in submission order.\<close>

fun submittedR :: "('d, 'c, 'h) ReadEvent list \<Rightarrow> 'h list" where
  "submittedR [] = []"
| "submittedR (AsyncRead buf sz func # evs) = func # submittedR evs"
| "submittedR (AsyncReadUntil buf sz pred func # evs) = func # submittedR evs"
| "submittedR (ev # evs) = submittedR evs"

fun submittedW :: "('d, 'h) WriteEvent list \<Rightarrow> 'h list" where
  "submittedW [] = []"
| "submittedW (AsyncWrite buf sz func # evs) = func # submittedW evs"
| "submittedW (ev # evs) = submittedW evs"

text \<open>The handlers an engine has posted so far, and the ones it still stores.\<close>

definition postedHandlers :: "('d, 'c, 'h, 'z) SupportBase_scheme \<Rightarrow> 'h list" where
  "postedHandlers st = map (\<lambda>b. fst (snd b)) (elQueue (el st))"

definition storedHandler :: "('h, 'z) WriteInfo_scheme \<Rightarrow> 'h list" where
  "storedHandler i = (case handler i of None \<Rightarrow> [] | Some h \<Rightarrow> [h])"

definition pendingN :: "('d, 'c, 'h) ReadSupportN \<Rightarrow> 'h list" where
  "pendingN st = concat (map storedHandler (queue st))"


definition pendingW :: "('d, 'c, 'h) WriteSupport1 \<Rightarrow> 'h list" where
  "pendingW st = storedHandler (winfo st)"

text \<open>
  The status a zero-size read completes with, and the event loop after one more bound
  handler has been posted to it.
\<close>

definition zeroSizeCode :: "('c \<Rightarrow> bool) option \<Rightarrow> ErrorCode" where
  "zeroSizeCode pred = (if pred \<noteq> None then BufferOverflow else Success)"

definition posted :: "bool \<Rightarrow> 'h \<Rightarrow> ErrorCode \<Rightarrow> nat \<Rightarrow> 'h EventLoop \<Rightarrow> 'h EventLoop" where
  "posted c h es k e = e\<lparr>elQueue := elQueue e @ [(c, h, es, k)]\<rparr>"

text \<open>
  The status \<open>readCompleteInterruptHandler\<close> posts, given the status the device reported
  and the last byte read.
\<close>

definition completeCode :: "ReadUntilStatus \<Rightarrow> ErrorCode \<Rightarrow> 'c \<Rightarrow> ('h, 'c) ReadInfo \<Rightarrow> ErrorCode" where
  "completeCode rs es lastByte i =
     (if isError es \<or> \<not> seekedCharFound rs lastByte i then es else BufferOverflow)"

text \<open>The bytes an engine has stored in the buffer of its request, start to cursor.\<close>

definition stored1 :: "fault + ('d, 'c, 'h) ReadSupport1 \<Rightarrow> fault + 'c list" where
  "stored1 r =
     (case r of
        Inl f \<Rightarrow> Inl f
      | Inr st \<Rightarrow> Inr (map (memory st) [start (rinfo st) .. current (rinfo st) - 1]))"

text \<open>
  The cursor of a request is in bounds; an address lies in the buffer of a request; and
  the outcome of the write interrupt with the store replaced.
\<close>

definition cursorOk :: "('h, 'z) WriteInfo_scheme \<Rightarrow> bool" where
  "cursorOk i = (start i \<le> current i \<and> current i \<le> start i + int (bufSize i))"

definition inBuffer :: "('h, 'z) WriteInfo_scheme \<Rightarrow> int \<Rightarrow> bool" where
  "inBuffer i a = (start i \<le> a \<and> a < start i + int (bufSize i))"

definition withMemory ::
  "(int \<Rightarrow> 'c) \<Rightarrow> fault + ('d, 'c, 'h) WriteSupport1 \<Rightarrow> fault + ('d, 'c, 'h) WriteSupport1" where
  "withMemory m r = (case r of Inl f \<Rightarrow> Inl f | Inr st \<Rightarrow> Inr (st\<lparr>memory := m\<rparr>))"

text \<open>The status of a bound handler.\<close>

definition statusOf :: "'h bound_handler \<Rightarrow> ErrorCode" where
  "statusOf b = fst (snd (snd b))"

text \<open>The request block that \<open>emplaceBack\<close> constructs at the back of the queue.\<close>

definition newRequest :: "int \<Rightarrow> nat \<Rightarrow> ('c \<Rightarrow> bool) option \<Rightarrow> 'h \<Rightarrow> ('h, 'c) ReadInfo" where
  "newRequest buf sz pred func =
     \<lparr>start = buf, current = buf, bufSize = sz, handler = Some func, readUntilPred = pred\<rparr>"

text \<open>
  What \<open>cancelRead\<close> and \<open>cancelWrite\<close> post for a request, and the event loop's queue
  at the end of a run.
\<close>

definition abortedEntry :: "('h, 'z) WriteInfo_scheme \<Rightarrow> 'h bound_handler" where
  "abortedEntry i = (False, the (handler i), Aborted, nat (current i - start i))"

definition completions :: "fault + ('d, 'c, 'h, 'z) SupportBase_scheme \<Rightarrow> fault + 'h bound_handler list" where
  "completions r = (case r of Inl f \<Rightarrow> Inl f | Inr st \<Rightarrow> Inr (elQueue (el st)))"

text \<open>
  The bytes at given addresses and the pointers \<open>(start, current)\<close> of the queued
  requests at the end of a run.
\<close>

definition storedAt ::
  "int list \<Rightarrow> fault + ('d, 'c, 'h, 'z) SupportBase_scheme \<Rightarrow> fault + 'c list" where
  "storedAt as r = (case r of Inl f \<Rightarrow> Inl f | Inr st \<Rightarrow> Inr (map (memory st) as))"

definition cursorsN :: "fault + ('d, 'c, 'h) ReadSupportN \<Rightarrow> fault + (int \<times> int) list" where
  "cursorsN r =
     (case r of Inl f \<Rightarrow> Inl f | Inr st \<Rightarrow> Inr (map (\<lambda>i. (start i, current i)) (queue st)))"

text \<open>
  The entry \<open>startNextRead\<close> posts for a zero-size request; the request blocks an event
  submits; and the statuses with which an event can complete a request that carries no
  predicate, at the front of the queue or behind it.
\<close>

definition zeroEntry :: "bool \<Rightarrow> ('h, 'c) ReadInfo \<Rightarrow> 'h bound_handler" where
  "zeroEntry c j = (c, the (handler j), zeroSizeCode (readUntilPred j), nat (current j - start j))"

fun requestsOf :: "('d, 'c, 'h) ReadEvent \<Rightarrow> ('h, 'c) ReadInfo list" where
  "requestsOf (AsyncRead buf sz func) = [newRequest buf sz None func]"
| "requestsOf (AsyncReadUntil buf sz pred func) = [newRequest buf sz pred func]"
| "requestsOf ev = []"

fun plainStatus :: "('d, 'c, 'h) ReadEvent \<Rightarrow> bool \<Rightarrow> ('h, 'c) ReadInfo \<Rightarrow> ErrorCode \<Rightarrow> bool" where
  "plainStatus (AsyncRead buf sz func) isFront j es = (bufSize j = 0 \<and> es = Success)"
| "plainStatus (AsyncReadUntil buf sz pred func) isFront j es = (bufSize j = 0 \<and> es = Success)"
| "plainStatus CancelRead isFront j es = (es = Aborted)"
| "plainStatus CanReadInterrupt isFront j es = (\<not> isFront \<and> bufSize j = 0 \<and> es = Success)"
| "plainStatus (ReadCompleteInterrupt e) isFront j es =
     (if isFront then es = e else bufSize j = 0 \<and> es = Success)"
| "plainStatus (ReadHardware f) isFront j es = False"

text \<open>
  The entries \<open>bs\<close> complete the first requests of \<open>js\<close>, one entry per request and in
  order, and every request among them that carries no predicate is completed with a
  status \<open>plainStatus\<close> allows; \<open>isFront\<close> tells whether \<open>js\<close> starts at the front of the
  queue.
\<close>

fun plainEntries ::
  "('d, 'c, 'h) ReadEvent \<Rightarrow> bool \<Rightarrow> ('h, 'c) ReadInfo list \<Rightarrow> 'h bound_handler list \<Rightarrow> bool" where
  "plainEntries ev isFront js [] = True"
| "plainEntries ev isFront [] (b # bs) = False"
| "plainEntries ev isFront (j # js) (b # bs) =
     (handler j = Some (fst (snd b)) \<and>
      (readUntilPred j = None \<longrightarrow> plainStatus ev isFront j (statusOf b)) \<and>
      plainEntries ev False js bs)"

text \<open>The request an event of the single-slot engine is about.\<close>

definition slotRequests ::
  "('d, 'c, 'h) ReadEvent \<Rightarrow> ('d, 'c, 'h) ReadSupport1 \<Rightarrow> ('h, 'c) ReadInfo list" where
  "slotRequests ev sr = (if requestsOf ev = [] then [rinfo sr] else requestsOf ev)"

subsection \<open>A concrete device\<close>

text \<open>
  A UART with a receive FIFO and a bounded transmit FIFO, for the concrete runs below.
  \<open>canRead\<close> is the receiver's "FIFO not empty" flag and \<open>canWrite\<close> the transmitter's
  "FIFO not full" flag; \<open>suspend\<close> and \<open>cancelRead\<close> report whether a read was armed.
\<close>

record Uart =
  rxFifo :: "char list"
  readArmed :: bool
  txFifo :: "char list"
  txRoom :: nat
  writeArmed :: bool

definition uart :: "(Uart, char) Device" where
  "uart =
     \<lparr>suspend = (\<lambda>d. (readArmed d, d)),
      resume = (\<lambda>d. d),
      startRead = (\<lambda>n c d. d\<lparr>readArmed := True\<rparr>),
      cancelRead = (\<lambda>c d. (readArmed d, d\<lparr>readArmed := False\<rparr>)),
      canRead = (\<lambda>d. rxFifo d \<noteq> []),
      read = (\<lambda>d. case rxFifo d of [] \<Rightarrow> (CHR 0x00, d) | x # xs \<Rightarrow> (x, d\<lparr>rxFifo := xs\<rparr>)),
      startWrite = (\<lambda>n c d. d\<lparr>writeArmed := True\<rparr>),
      cancelWrite = (\<lambda>c d. (writeArmed d, d\<lparr>writeArmed := False\<rparr>)),
      canWrite = (\<lambda>d. 0 < txRoom d),
      writeCh = (\<lambda>x d. d\<lparr>txFifo := txFifo d @ [x], txRoom := txRoom d - 1\<rparr>)\<rparr>"

definition idleUart :: Uart where
  "idleUart = \<lparr>rxFifo = [], readArmed = False, txFifo = [], txRoom = 0, writeArmed = False\<rparr>"

definition emptyLoop :: "nat \<Rightarrow> nat EventLoop" where
  "emptyLoop cap = \<lparr>elQueue = [], elCapacity = cap\<rparr>"

definition initN :: "(Uart, char, nat) ReadSupportN" where
  "initN = \<lparr>device = idleUart, el = emptyLoop 8, memory = (\<lambda>a. CHR 0x00), queue = []\<rparr>"

definition emptyReadInfo :: "(nat, char) ReadInfo" where
  "emptyReadInfo = \<lparr>start = 0, current = 0, bufSize = 0, handler = None, readUntilPred = None\<rparr>"

definition init1 :: "(Uart, char, nat) ReadSupport1" where
  "init1 = \<lparr>device = idleUart, el = emptyLoop 8, memory = (\<lambda>a. CHR 0x00), rinfo = emptyReadInfo\<rparr>"

definition initW :: "(Uart, char, nat) WriteSupport1" where
  "initW = \<lparr>device = idleUart, el = emptyLoop 8, memory = (\<lambda>a. CHR 0x00),
            winfo = \<lparr>start = 0, current = 0, bufSize = 0, handler = None\<rparr>\<rparr>"

definition arrive :: "char list \<Rightarrow> Uart \<Rightarrow> Uart" where
  "arrive xs d = d\<lparr>rxFifo := rxFifo d @ xs\<rparr>"

definition isNewline :: "char \<Rightarrow> bool" where
  "isNewline x = (x = CHR 0x0A)"

subsection \<open>Concrete runs\<close>

text \<open>
  Three requests on a queue of three: one byte, two bytes, and a zero-size read-until;
  the hardware delivers \<open>H\<close>, then \<open>ab\<close>.
\<close>

definition queuedReads :: "(Uart, char, nat) ReadEvent list" where
  "queuedReads =
     [AsyncRead 0 1 1, AsyncRead 10 2 2, AsyncReadUntil 20 0 (Some isNewline) 3,
      ReadHardware (arrive ''H''), CanReadInterrupt, ReadCompleteInterrupt Success,
      ReadHardware (arrive ''ab''), CanReadInterrupt, ReadCompleteInterrupt Success]"


text \<open>
  States in the middle of a transfer: a read of four bytes with two received (on the queued
  engine with a read of three waiting behind it), and a write of four bytes with two sent.
\<close>

definition armedUart :: Uart where
  "armedUart = idleUart\<lparr>readArmed := True, writeArmed := True\<rparr>"

definition readInFlightN :: "(Uart, char, nat) ReadSupportN" where
  "readInFlightN =
     \<lparr>device = armedUart, el = emptyLoop 8, memory = (\<lambda>a. CHR ''a''),
      queue = [\<lparr>start = 0, current = 2, bufSize = 4, handler = Some 1, readUntilPred = None\<rparr>,
               \<lparr>start = 10, current = 10, bufSize = 3, handler = Some 2, readUntilPred = None\<rparr>]\<rparr>"

definition readInFlight1 :: "(Uart, char, nat) ReadSupport1" where
  "readInFlight1 =
     \<lparr>device = armedUart, el = emptyLoop 8, memory = (\<lambda>a. CHR ''a''),
      rinfo = \<lparr>start = 0, current = 2, bufSize = 4, handler = Some 1, readUntilPred = None\<rparr>\<rparr>"

definition writeInFlight :: "(Uart, char, nat) WriteSupport1" where
  "writeInFlight =
     \<lparr>device = armedUart, el = emptyLoop 8, memory = (\<lambda>a. CHR ''a''),
      winfo = \<lparr>start = 0, current = 2, bufSize = 4, handler = Some 1\<rparr>\<rparr>"

text \<open>
  A read of two bytes is running at the device, a zero-size read is submitted behind it,
  and then the reads are cancelled.
\<close>

definition zeroSizeBehind :: "(Uart, char, nat) ReadEvent list" where
  "zeroSizeBehind = [AsyncRead 0 2 1, AsyncRead 10 0 2]"

text \<open>A read-until whose delimiter arrives with one more byte behind it.\<close>

definition readUntilThenMore :: "(Uart, char, nat) ReadEvent list" where
  "readUntilThenMore =
     [AsyncReadUntil 0 8 (Some isNewline) 1,
      ReadHardware (arrive [CHR ''a'', CHR ''b'', CHR 0x0A, CHR ''x'']), CanReadInterrupt]"

text \<open>
  The single-slot engine with a read-until of eight bytes in flight, two bytes read and
  the delimiter next in the receive FIFO.
\<close>

definition delimiterNext1 :: "(Uart, char, nat) ReadSupport1" where
  "delimiterNext1 =
     \<lparr>device = armedUart\<lparr>rxFifo := [CHR 0x0A]\<rparr>, el = emptyLoop 8, memory = (\<lambda>a. CHR ''a''),
      rinfo = \<lparr>start = 0, current = 2, bufSize = 8, handler = Some 1,
                readUntilPred = Some isNewline\<rparr>\<rparr>"

text \<open>
  A read and a write of four bytes, two of them transferred; and states whose cursor
  stands at the end of the buffer while the device still reports readiness.
\<close>

definition partialRead :: "(Uart, char, nat) ReadEvent list" where
  "partialRead = [AsyncRead 0 4 1, ReadHardware (arrive [CHR ''a'', CHR ''b'']), CanReadInterrupt]"

definition partialWrite :: "(Uart, nat) WriteEvent list" where
  "partialWrite = [AsyncWrite 0 4 1, WriteHardware (\<lambda>d. d\<lparr>txRoom := 2\<rparr>), CanWriteInterrupt]"

definition overrunN :: "(Uart, char, nat) ReadSupportN" where
  "overrunN =
     \<lparr>device = armedUart\<lparr>rxFifo := [CHR ''x'']\<rparr>, el = emptyLoop 8, memory = (\<lambda>a. CHR ''a''),
      queue = [\<lparr>start = 0, current = 4, bufSize = 4, handler = Some 1, readUntilPred = None\<rparr>]\<rparr>"

definition overrun1 :: "(Uart, char, nat) ReadSupport1" where
  "overrun1 =
     \<lparr>device = armedUart\<lparr>rxFifo := [CHR ''x'']\<rparr>, el = emptyLoop 8, memory = (\<lambda>a. CHR ''a''),
      rinfo = \<lparr>start = 0, current = 4, bufSize = 4, handler = Some 1, readUntilPred = None\<rparr>\<rparr>"

definition overrunW :: "(Uart, char, nat) WriteSupport1" where
  "overrunW =
     \<lparr>device = armedUart\<lparr>txRoom := 1\<rparr>, el = emptyLoop 8, memory = (\<lambda>a. CHR ''a''),
      winfo = \<lparr>start = 0, current = 4, bufSize = 4, handler = Some 1\<rparr>\<rparr>"

definition writeReady :: "(Uart, char, nat) WriteSupport1" where
  "writeReady = writeInFlight\<lparr>device := armedUart\<lparr>txRoom := 1\<rparr>\<rparr>"

text \<open>A plain read of four bytes, cancelled before any byte arrived.\<close>

definition cancelledRead :: "(Uart, char, nat) ReadEvent list" where
  "cancelledRead = [AsyncRead 0 4 1, CancelRead]"

text \<open>
  The queued engine with a read-until in flight whose delimiter is next in the receive
  FIFO with one more byte behind it, and a second request waiting in the queue.
\<close>

definition delimiterThenMoreN :: "(Uart, char, nat) ReadSupportN" where
  "delimiterThenMoreN =
     \<lparr>device = armedUart\<lparr>rxFifo := [CHR 0x0A, CHR ''x'']\<rparr>, el = emptyLoop 8,
      memory = (\<lambda>a. CHR ''a''),
      queue = [\<lparr>start = 0, current = 2, bufSize = 8, handler = Some 1,
                readUntilPred = Some isNewline\<rparr>,
               \<lparr>start = 10, current = 10, bufSize = 3, handler = Some 2,
                readUntilPred = None\<rparr>]\<rparr>"

text \<open>
  Two writes, one after the other, each sent in full and completed by the "write complete"
  interrupt.
\<close>

definition twoWrites :: "(Uart, nat) WriteEvent list" where
  "twoWrites =
     [AsyncWrite 0 2 1, WriteHardware (\<lambda>d. d\<lparr>txRoom := 2\<rparr>), CanWriteInterrupt,
      WriteCompleteInterrupt Success,
      AsyncWrite 10 1 2, WriteHardware (\<lambda>d. d\<lparr>txRoom := 1\<rparr>), CanWriteInterrupt,
      WriteCompleteInterrupt Success]"


text \<open>
  A read-until of three bytes; the device delivers \<open>abc\<close>, none of them the delimiter,
  and then reports completion.
\<close>

definition fullWithoutMatch :: "(Uart, char, nat) ReadEvent list" where
  "fullWithoutMatch =
     [AsyncReadUntil 0 3 (Some isNewline) 1, ReadHardware (arrive ''abc''), CanReadInterrupt,
      ReadCompleteInterrupt Success]"

text \<open>
  The queued engine: a read-until of eight bytes and a read of three bytes behind it; the
  delimiter arrives with one more byte behind it.
\<close>

definition readUntilThenMoreN :: "(Uart, char, nat) ReadEvent list" where
  "readUntilThenMoreN =
     [AsyncReadUntil 0 8 (Some isNewline) 1, AsyncRead 10 3 2,
      ReadHardware (arrive [CHR ''a'', CHR ''b'', CHR 0x0A, CHR ''x'']), CanReadInterrupt]"

text \<open>
  The queued engine with a plain read of four bytes in flight, two bytes read, a
  read-until waiting behind it, and the delimiter of that read-until next in the receive
  FIFO.
\<close>

definition mixedQueueN :: "(Uart, char, nat) ReadSupportN" where
  "mixedQueueN =
     \<lparr>device = armedUart\<lparr>rxFifo := [CHR 0x0A]\<rparr>, el = emptyLoop 8, memory = (\<lambda>a. CHR ''a''),
      queue = [\<lparr>start = 0, current = 2, bufSize = 4, handler = Some 1, readUntilPred = None\<rparr>,
               \<lparr>start = 10, current = 10, bufSize = 3, handler = Some 2,
                readUntilPred = Some isNewline\<rparr>]\<rparr>"

text \<open>
  That run one pass later: the first request has been posted and popped, the second one
  started, and the byte behind the delimiter is still in the receive FIFO; and the popped
  request as the reference of the interrupt handler still sees it.
\<close>

definition poppedRequest :: "(nat, char) ReadInfo" where
  "poppedRequest =
     \<lparr>start = 0, current = 3, bufSize = 8, handler = None, readUntilPred = Some isNewline\<rparr>"

definition afterShortCircuitN :: "(Uart, char, nat) ReadSupportN" where
  "afterShortCircuitN =
     \<lparr>device = armedUart\<lparr>rxFifo := [CHR ''x'']\<rparr>,
      el = posted True 1 Success 3 (emptyLoop 8),
      memory = (\<lambda>a. CHR ''a'')(2 := CHR 0x0A),
      queue = [\<lparr>start = 10, current = 10, bufSize = 3, handler = Some 2,
                readUntilPred = None\<rparr>]\<rparr>"

section \<open>Properties\<close>

subsection \<open>Where the handlers are: stored or posted\<close>

lemma invokeHandler_Inr_iff:
  "invokeHandler e i es c = Inr r \<longleftrightarrow>
     (\<exists>h. handler i = Some h \<and> length (elQueue e) < elCapacity e \<and>
          r = (e\<lparr>elQueue := elQueue e @ [(c, h, es, nat (current i - start i))]\<rparr>,
               i\<lparr>handler := None\<rparr>))"
  by (auto simp: invokeHandler_def post_def postInterruptCtx_def Let_def split: option.splits)

lemma invokeHandler_Inl_iff:
  "invokeHandler e i es c = Inl f \<longleftrightarrow>
     f = AssertFailed \<and> (handler i = None \<or> \<not> length (elQueue e) < elCapacity e)"
  by (auto simp: invokeHandler_def post_def postInterruptCtx_def Let_def split: option.splits)

lemma postedHandlers_simps [simp]:
  "postedHandlers (st\<lparr>device := d\<rparr>) = postedHandlers st"
  "postedHandlers (st\<lparr>memory := m\<rparr>) = postedHandlers st"
  "postedHandlers (st\<lparr>el := e\<rparr>) = map (\<lambda>b. fst (snd b)) (elQueue e)"
  by (simp_all add: postedHandlers_def)

lemma postedHandlers_more [simp]:
  "postedHandlers (st\<lparr>queue := q\<rparr>) = postedHandlers st"
  "postedHandlers (s1\<lparr>rinfo := ri\<rparr>) = postedHandlers s1"
  "postedHandlers (sw\<lparr>winfo := wi\<rparr>) = postedHandlers sw"
  by (simp_all add: postedHandlers_def)

lemma pendingN_simps [simp]:
  "pendingN (st\<lparr>device := d\<rparr>) = pendingN st"
  "pendingN (st\<lparr>memory := m\<rparr>) = pendingN st"
  "pendingN (st\<lparr>el := e\<rparr>) = pendingN st"
  "pendingN (st\<lparr>queue := q\<rparr>) = concat (map storedHandler q)"
  by (simp_all add: pendingN_def)

lemma startNextRead_moved:
  "startNextRead D c st = Inr st' \<Longrightarrow>
     \<exists>ps. postedHandlers st' = postedHandlers st @ ps \<and> pendingN st = ps @ pendingN st'"
proof (induction D c st arbitrary: st' rule: startNextRead.induct)
  case (1 D c st)
  show ?case
  proof (cases "queue st")
    case Nil
    with "1.prems" show ?thesis by (simp add: startNextRead.simps)
  next
    case (Cons i rest)
    show ?thesis
    proof (cases "bufSize i = 0")
      case False
      with Cons "1.prems" show ?thesis by (auto simp: startNextRead.simps pendingN_def)
    next
      case True
      let ?code = "if readUntilPred i \<noteq> None then BufferOverflow else Success"
      from "1.prems" Cons True obtain e' i' where
        ih: "invokeHandler (el st) i ?code c = Inr (e', i')" and
        rec: "startNextRead D c (st\<lparr>el := e', queue := rest\<rparr>) = Inr st'"
        by (auto simp: startNextRead.simps Let_def split: sum.splits)
      from ih obtain h where h: "handler i = Some h"
        "e' = (el st)\<lparr>elQueue := elQueue (el st) @ [(c, h, ?code, nat (current i - start i))]\<rparr>"
        by (auto simp: invokeHandler_Inr_iff)
      from "1.IH"[OF Cons True refl ih refl rec] obtain ps where
        ps: "postedHandlers st' = postedHandlers (st\<lparr>el := e', queue := rest\<rparr>) @ ps"
            "pendingN (st\<lparr>el := e', queue := rest\<rparr>) = ps @ pendingN st'"
        by blast
      have "postedHandlers st' = postedHandlers st @ (h # ps)"
        using ps(1) h by (simp add: postedHandlers_def)
      moreover have "pendingN st = (h # ps) @ pendingN st'"
        using ps(2) h Cons by (simp add: pendingN_def storedHandler_def)
      ultimately show ?thesis by blast
    qed
  qed
qed


lemma storedHandler_simps [simp]:
  "storedHandler (i\<lparr>current := x\<rparr>) = storedHandler i"
  "storedHandler (i\<lparr>start := y\<rparr>) = storedHandler i"
  "storedHandler (i\<lparr>bufSize := n\<rparr>) = storedHandler i"
  "storedHandler (i\<lparr>handler := ho\<rparr>) = (case ho of None \<Rightarrow> [] | Some h \<Rightarrow> [h])"
  by (simp_all add: storedHandler_def)

lemma storedHandler_pred [simp]:
  "storedHandler (ri\<lparr>readUntilPred := p\<rparr>) = storedHandler ri"
  by (simp add: storedHandler_def)

lemma asyncReadUntilN_moved:
  assumes "asyncReadUntilN D n buf sz pred func st = Inr st'"
  shows "\<exists>ps. postedHandlers st' = postedHandlers st @ ps \<and>
              pendingN st @ [func] = ps @ pendingN st'"
proof -
  obtain susp d1 where sd: "suspend D (device st) = (susp, d1)" by (cases "suspend D (device st)")
  let ?new = "\<lparr>start = buf, current = buf, bufSize = sz, handler = Some func, readUntilPred = pred\<rparr>"
  let ?st1 = "st\<lparr>device := d1, queue := queue st @ [?new]\<rparr>"
  show ?thesis
  proof (cases susp)
    case True
    with assms sd have "st' = ?st1\<lparr>device := resume D d1\<rparr>"
      by (auto simp: asyncReadUntilN_def Let_def split: if_splits)
    then show ?thesis by (simp add: pendingN_def storedHandler_def)
  next
    case False
    with assms sd have "startNextRead D False ?st1 = Inr st'"
      by (auto simp: asyncReadUntilN_def Let_def split: if_splits)
    from startNextRead_moved[OF this] show ?thesis
      by (simp add: pendingN_def storedHandler_def)
  qed
qed

lemma cancelRead_for_each_posted:
  "cancelRead_for_each e q = Inr e' \<Longrightarrow>
     map (\<lambda>b. fst (snd b)) (elQueue e') =
       map (\<lambda>b. fst (snd b)) (elQueue e) @ concat (map storedHandler q)"
proof (induction q arbitrary: e)
  case Nil
  then show ?case by simp
next
  case (Cons i rest)
  then show ?case
    by (auto simp: invokeHandler_Inr_iff storedHandler_def split: if_splits sum.splits)
qed

lemma cancelReadN_moved:
  assumes "cancelReadN D st = Inr (b, st')"
  shows "\<exists>ps. postedHandlers st' = postedHandlers st @ ps \<and> pendingN st = ps @ pendingN st'"
  using assms
  by (auto simp: cancelReadN_def Let_def postedHandlers_def pendingN_def
           dest!: cancelRead_for_each_posted split: prod.splits if_splits sum.splits)

lemma canReadStepN_moved:
  assumes "canReadStepN D rs st = Inr (p, st')"
  shows "(\<exists>ps. postedHandlers st' = postedHandlers st @ ps \<and> pendingN st = ps @ pendingN st') \<and>
         (\<forall>i. p = Some i \<longrightarrow> handler i = None)"
proof (cases p)
  case None
  with assms show ?thesis
    by (auto simp: canReadStepN_def Let_def pendingN_def
             split: list.splits if_splits prod.splits sum.splits)
next
  case (Some i2)
  with assms obtain i rest h s2 where
    q: "queue st = i # rest" and
    h: "handler i = Some h" and
    nx: "startNextRead D True s2 = Inr st'" and
    s2: "postedHandlers s2 = postedHandlers st @ [h]" "pendingN s2 = concat (map storedHandler rest)"
    and i2: "handler i2 = None"
    by (auto simp: canReadStepN_def Let_def invokeHandler_Inr_iff postedHandlers_def
             split: list.splits if_splits prod.splits sum.splits)
  from startNextRead_moved[OF nx] obtain ps where
    "postedHandlers st' = (postedHandlers st @ [h]) @ ps" "concat (map storedHandler rest) = ps @ pendingN st'"
    by (auto simp: s2)
  then have "postedHandlers st' = postedHandlers st @ (h # ps)" "pendingN st = (h # ps) @ pendingN st'"
    using q h by (simp_all add: pendingN_def storedHandler_def)
  with i2 Some show ?thesis by blast
qed

lemma canReadStepPopped_stale:
  assumes "canReadStepPopped D rs i st = Inr (i1, st')" and "handler i = None"
  shows "handler i1 = None \<and> el st' = el st \<and> queue st' = queue st \<and>
         start i1 = start i \<and> bufSize i1 = bufSize i \<and> readUntilPred i1 = readUntilPred i \<and>
         current i1 = current i + 1 \<and> current i < start i + int (bufSize i) \<and>
         (\<forall>a. a \<noteq> current i \<longrightarrow> memory st' a = memory st a)"
proof -
  obtain ch d1 where rd: "read D (device st) = (ch, d1)" by (cases "read D (device st)")
  obtain c d2 where cd: "cancelRead D InterruptContext d1 = (c, d2)"
    by (cases "cancelRead D InterruptContext d1")
  from assms(2) have iv: "\<And>e es k. invokeHandler e (i\<lparr>current := current i + 1\<rparr>) es k = Inl AssertFailed"
    by (simp add: invokeHandler_def)
  from assms(1) rd cd iv show ?thesis
    using assms(2)
    by (auto simp: canReadStepPopped_def Let_def split: if_splits)
qed

lemma canReadLoopN_stale:
  "canReadLoopN D rs popped st = Inr st' \<Longrightarrow> popped = Some i \<Longrightarrow> handler i = None \<Longrightarrow>
     el st' = el st \<and> queue st' = queue st"
proof (induction D rs popped st arbitrary: st' i rule: canReadLoopN.induct)
  case (1 D rs popped st)
  show ?case
  proof (cases "canRead D (device st)")
    case False
    with "1.prems" show ?thesis by (simp add: canReadLoopN.simps)
  next
    case True
    with "1.prems" obtain i1 st1 where
      stp: "canReadStepPopped D rs i st = Inr (i1, st1)" and
      lp: "canReadLoopN D rs (Some i1) st1 = Inr st'"
      by (cases "canReadStepPopped D rs i st") (auto simp: canReadLoopN.simps[of D rs "Some i" st])
    note s = canReadStepPopped_stale[OF stp "1.prems"(3)]
    from s have hn: "handler i1 = None" by simp
    from "1.IH"(2)[OF _ "1.prems"(2) stp refl lp refl hn] True s show ?thesis by simp
  qed
qed

lemma canReadLoopN_moved:
  "canReadLoopN D rs popped st = Inr st' \<Longrightarrow> \<forall>i. popped = Some i \<longrightarrow> handler i = None \<Longrightarrow>
     \<exists>ps. postedHandlers st' = postedHandlers st @ ps \<and> pendingN st = ps @ pendingN st'"
proof (induction D rs popped st arbitrary: st' rule: canReadLoopN.induct)
  case (1 D rs popped st)
  show ?case
  proof (cases "canRead D (device st)")
    case False
    with "1.prems" show ?thesis by (simp add: canReadLoopN.simps)
  next
    case True
    show ?thesis
    proof (cases popped)
      case None
      with True "1.prems"(1) obtain p st1 where
        stp: "canReadStepN D rs st = Inr (p, st1)" and
        lp: "canReadLoopN D rs p st1 = Inr st'"
        by (cases "canReadStepN D rs st") (auto simp: canReadLoopN.simps[of D rs None st])
      from canReadStepN_moved[OF stp] obtain ps where
        ps: "postedHandlers st1 = postedHandlers st @ ps" "pendingN st = ps @ pendingN st1"
        and hp: "\<forall>i. p = Some i \<longrightarrow> handler i = None" by blast
      from "1.IH"(1)[OF _ None stp refl lp hp] True obtain qs where
        "postedHandlers st' = postedHandlers st1 @ qs" "pendingN st1 = qs @ pendingN st'" by auto
      with ps have "postedHandlers st' = postedHandlers st @ (ps @ qs)"
        "pendingN st = (ps @ qs) @ pendingN st'" by simp_all
      then show ?thesis by blast
    next
      case (Some i)
      with True "1.prems"(1) obtain i1 st1 where
        stp: "canReadStepPopped D rs i st = Inr (i1, st1)" and
        lp: "canReadLoopN D rs (Some i1) st1 = Inr st'"
        by (cases "canReadStepPopped D rs i st") (auto simp: canReadLoopN.simps[of D rs "Some i" st])
      from "1.prems"(2) Some have hn: "handler i = None" by simp
      note s = canReadStepPopped_stale[OF stp hn]
      from s have hp: "\<forall>j. Some i1 = Some j \<longrightarrow> handler j = None" by simp
      from "1.IH"(2)[OF _ Some stp refl lp hp] True obtain qs where
        "postedHandlers st' = postedHandlers st1 @ qs" "pendingN st1 = qs @ pendingN st'" by auto
      moreover from s have "postedHandlers st1 = postedHandlers st" "pendingN st1 = pendingN st"
        by (simp_all add: postedHandlers_def pendingN_def)
      ultimately show ?thesis by auto
    qed
  qed
qed

lemma readCompleteN_moved:
  assumes "readCompleteInterruptHandlerN D rs es st = Inr st'"
  shows "\<exists>ps. postedHandlers st' = postedHandlers st @ ps \<and> pendingN st = ps @ pendingN st'"
proof -
  from assms obtain i rest h s2 where
    q: "queue st = i # rest" and h: "handler i = Some h" and
    nx: "startNextRead D True s2 = Inr st'" and
    s2: "postedHandlers s2 = postedHandlers st @ [h]" "pendingN s2 = concat (map storedHandler rest)"
    by (auto simp: readCompleteInterruptHandlerN_def invokeHandler_Inr_iff postedHandlers_def
             split: list.splits if_splits sum.splits)
  from startNextRead_moved[OF nx] obtain ps where
    "postedHandlers st' = (postedHandlers st @ [h]) @ ps" "concat (map storedHandler rest) = ps @ pendingN st'"
    by (auto simp: s2)
  then have "postedHandlers st' = postedHandlers st @ (h # ps)" "pendingN st = (h # ps) @ pendingN st'"
    using q h by (simp_all add: pendingN_def storedHandler_def)
  then show ?thesis by blast
qed

lemma stepN_moved:
  assumes "stepN D rs n ev st = Inr st'"
  shows "\<exists>ps. postedHandlers st' = postedHandlers st @ ps \<and>
              pendingN st @ submittedR [ev] = ps @ pendingN st'"
proof (cases ev)
  case (AsyncRead buf sz func)
  with assms asyncReadUntilN_moved[of D n buf sz None func st st'] show ?thesis
    by (simp add: asyncReadN_def)
next
  case (AsyncReadUntil buf sz pred func)
  with assms asyncReadUntilN_moved[of D n buf sz pred func st st'] show ?thesis by simp
next
  case CancelRead
  with assms obtain b where "cancelReadN D st = Inr (b, st')"
    by (auto simp: dropResult_def split: sum.splits)
  from cancelReadN_moved[OF this] CancelRead show ?thesis by simp
next
  case CanReadInterrupt
  with assms have "canReadLoopN D rs None st = Inr st'"
    by (auto simp: canReadInterruptHandlerN_def split: if_splits)
  from canReadLoopN_moved[OF this] CanReadInterrupt show ?thesis by simp
next
  case (ReadCompleteInterrupt es)
  with assms readCompleteN_moved[of D rs es st st'] show ?thesis by simp
next
  case (ReadHardware f)
  with assms show ?thesis by auto
qed

lemma submittedR_append: "submittedR (xs @ ys) = submittedR xs @ submittedR ys"
  by (induction xs rule: submittedR.induct) simp_all

lemma runN_moved:
  "runN D rs n evs st = Inr st' \<Longrightarrow>
     \<exists>ps. postedHandlers st' = postedHandlers st @ ps \<and>
          pendingN st @ submittedR evs = ps @ pendingN st'"
proof (induction evs arbitrary: st)
  case Nil
  then show ?case by simp
next
  case (Cons ev evs)
  then obtain st1 where s1: "stepN D rs n ev st = Inr st1" and r: "runN D rs n evs st1 = Inr st'"
    by (auto split: sum.splits)
  from stepN_moved[OF s1] obtain ps where
    ps: "postedHandlers st1 = postedHandlers st @ ps" "pendingN st @ submittedR [ev] = ps @ pendingN st1"
    by blast
  from Cons.IH[OF r] obtain qs where
    qs: "postedHandlers st' = postedHandlers st1 @ qs" "pendingN st1 @ submittedR evs = qs @ pendingN st'"
    by blast
  have "submittedR (ev # evs) = submittedR [ev] @ submittedR evs"
    using submittedR_append[of "[ev]" evs] by simp
  with ps qs have "postedHandlers st' = postedHandlers st @ (ps @ qs)"
    "pendingN st @ submittedR (ev # evs) = (ps @ qs) @ pendingN st'"
    by (simp_all, metis append.assoc)
  then show ?case by blast
qed










lemma initWrite_moved:
  assumes "initWrite D buf sz st = Inr st'"
  shows "\<exists>ps. postedHandlers st' = postedHandlers st @ ps \<and> pendingW st = ps @ pendingW st'"
  using assms
  by (auto simp: initWrite_def Let_def invokeHandler_Inr_iff postedHandlers_def pendingW_def
        storedHandler_def split: if_splits sum.splits)

lemma asyncWrite_moved:
  assumes "asyncWrite D buf sz func st = Inr st'"
  shows "\<exists>ps. postedHandlers st' = postedHandlers st @ ps \<and>
              pendingW st @ [func] = ps @ pendingW st'"
  using assms
  by (auto simp: asyncWrite_def pendingW_def storedHandler_def
           dest!: initWrite_moved split: if_splits)

lemma cancelWrite1_moved:
  assumes "cancelWrite1 D st = Inr (b, st')"
  shows "\<exists>ps. postedHandlers st' = postedHandlers st @ ps \<and> pendingW st = ps @ pendingW st'"
  using assms
  by (auto simp: cancelWrite1_def Let_def invokeHandler_Inr_iff postedHandlers_def pendingW_def
        storedHandler_def split: prod.splits if_splits sum.splits)

lemma canWriteInterruptHandler_handlers:
  "canWriteInterruptHandler D st = Inr st' \<Longrightarrow>
     postedHandlers st' = postedHandlers st \<and> pendingW st' = pendingW st"
proof (induction D st arbitrary: st' rule: canWriteInterruptHandler.induct)
  case (1 D st)
  show ?case
  proof (cases "canWrite D (device st)")
    case False
    with "1.prems" show ?thesis by (simp add: canWriteInterruptHandler.simps)
  next
    case True
    with "1.prems" obtain st1 where
      stp: "canWriteStep D st = Inr st1" and
      rest: "canWriteInterruptHandler D st1 = Inr st'"
      by (auto simp: canWriteInterruptHandler.simps[of D st] split: sum.splits)
    from stp have "postedHandlers st1 = postedHandlers st \<and> pendingW st1 = pendingW st"
      by (auto simp: canWriteStep_def Let_def pendingW_def postedHandlers_def split: if_splits)
    with "1.IH"[OF _ stp rest] True show ?thesis by simp
  qed
qed

lemma writeComplete_moved:
  assumes "writeCompleteInterruptHandler es st = Inr st'"
  shows "\<exists>ps. postedHandlers st' = postedHandlers st @ ps \<and> pendingW st = ps @ pendingW st'"
  using assms
  by (auto simp: writeCompleteInterruptHandler_def invokeHandler_Inr_iff
        postedHandlers_def pendingW_def storedHandler_def split: sum.splits)

lemma stepW_moved:
  assumes "stepW D ev st = Inr st'"
  shows "\<exists>ps. postedHandlers st' = postedHandlers st @ ps \<and>
              pendingW st @ submittedW [ev] = ps @ pendingW st'"
proof (cases ev)
  case (AsyncWrite buf sz func)
  with assms asyncWrite_moved[of D buf sz func st st'] show ?thesis by simp
next
  case CancelWrite
  with assms obtain b where "cancelWrite1 D st = Inr (b, st')"
    by (auto simp: dropResult_def split: sum.splits)
  from cancelWrite1_moved[OF this] CancelWrite show ?thesis by simp
next
  case CanWriteInterrupt
  with assms canWriteInterruptHandler_handlers[of D st st'] show ?thesis by simp
next
  case (WriteCompleteInterrupt es)
  with assms writeComplete_moved[of es st st'] show ?thesis by simp
next
  case (WriteHardware f)
  with assms show ?thesis by (auto simp: pendingW_def postedHandlers_def)
qed

lemma submittedW_append: "submittedW (xs @ ys) = submittedW xs @ submittedW ys"
  by (induction xs rule: submittedW.induct) simp_all

lemma runW_moved:
  "runW D evs st = Inr st' \<Longrightarrow>
     \<exists>ps. postedHandlers st' = postedHandlers st @ ps \<and>
          pendingW st @ submittedW evs = ps @ pendingW st'"
proof (induction evs arbitrary: st)
  case Nil
  then show ?case by simp
next
  case (Cons ev evs)
  then obtain st1 where s1: "stepW D ev st = Inr st1" and r: "runW D evs st1 = Inr st'"
    by (auto split: sum.splits)
  from stepW_moved[OF s1] obtain ps where
    ps: "postedHandlers st1 = postedHandlers st @ ps" "pendingW st @ submittedW [ev] = ps @ pendingW st1"
    by blast
  from Cons.IH[OF r] obtain qs where
    qs: "postedHandlers st' = postedHandlers st1 @ qs" "pendingW st1 @ submittedW evs = qs @ pendingW st'"
    by blast
  have "submittedW (ev # evs) = submittedW [ev] @ submittedW evs"
    using submittedW_append[of "[ev]" evs] by simp
  with ps qs have "postedHandlers st' = postedHandlers st @ (ps @ qs)"
    "pendingW st @ submittedW (ev # evs) = (ps @ qs) @ pendingW st'"
    by (simp_all, metis append.assoc)
  then show ?case by blast
qed

subsection \<open>The concrete runs, evaluated\<close>

lemma queuedReads_run:
  "\<exists>st'. runN uart ReadUntilValid 3 queuedReads initN = Inr st' \<and>
         elQueue (el st') = [(True, 1, Success, 1), (True, 2, Success, 2), (True, 3, BufferOverflow, 0)]"
  by (simp add: queuedReads_def initN_def uart_def idleUart_def emptyLoop_def arrive_def
        isNewline_def asyncReadN_def asyncReadUntilN_def startNextRead.simps canReadLoopN.simps
        canReadStepN_def canReadInterruptHandlerN_def readCompleteInterruptHandlerN_def
        invokeHandler_def post_def postInterruptCtx_def ctxOf_def isError_def Let_def)


lemma twoWrites_run:
  "\<exists>st'. runW uart twoWrites initW = Inr st' \<and>
         elQueue (el st') = [(True, 1, Success, 2), (True, 2, Success, 1)]"
  by (simp add: twoWrites_def initW_def uart_def idleUart_def emptyLoop_def
        asyncWrite_def initWrite_def canWriteInterruptHandler.simps canWriteStep_def
        writeCompleteInterruptHandler_def
        invokeHandler_def post_def postInterruptCtx_def Let_def)

lemma delimiterThenMoreN_step:
  "canReadStepN uart ReadUntilValid delimiterThenMoreN = Inr (Some poppedRequest, afterShortCircuitN)"
  by (simp add: delimiterThenMoreN_def poppedRequest_def afterShortCircuitN_def posted_def
        uart_def armedUart_def idleUart_def emptyLoop_def isNewline_def startNextRead.simps
        canReadStepN_def invokeHandler_def postInterruptCtx_def ctxOf_def Let_def)

lemma afterShortCircuitN_loop:
  "\<exists>st'. canReadLoopN uart ReadUntilValid (Some poppedRequest) afterShortCircuitN = Inr st' \<and>
         memory st' 3 = CHR ''x''"
  by (simp add: poppedRequest_def afterShortCircuitN_def posted_def
        uart_def armedUart_def idleUart_def emptyLoop_def isNewline_def
        canReadLoopN.simps canReadStepPopped_def Let_def)

subsection \<open>Order of completions\<close>

text \<open>
  Claim C7. In every run of the queued read engine that hits no assertion, the handlers
  posted during the run are, in posting order, an initial segment of the handlers that
  were stored at its start followed by the handlers submitted during it, in submission
  order: completions are posted first in, first out. The same holds for the write engine,
  which has a single slot. The statement covers every interleaving of public calls,
  interrupts and hardware activity, with or without a cancel.
\<close>

theorem completions_in_submission_order:
  "(runN D rs n evs st = Inr st' \<longrightarrow>
      (\<exists>ps. postedHandlers st' = postedHandlers st @ ps \<and>
            prefix ps (pendingN st @ submittedR evs))) \<and>
   (runW DW evsW sw = Inr sw' \<longrightarrow>
      (\<exists>ps. postedHandlers sw' = postedHandlers sw @ ps \<and>
            prefix ps (pendingW sw @ submittedW evsW)))"
proof (intro conjI impI)
  assume "runN D rs n evs st = Inr st'"
  from runN_moved[OF this] show
    "\<exists>ps. postedHandlers st' = postedHandlers st @ ps \<and> prefix ps (pendingN st @ submittedR evs)"
    by (auto simp: prefix_def)
next
  assume "runW DW evsW sw = Inr sw'"
  from runW_moved[OF this] show
    "\<exists>ps. postedHandlers sw' = postedHandlers sw @ ps \<and> prefix ps (pendingW sw @ submittedW evsW)"
    by (auto simp: prefix_def)
qed

theorem completions_in_submission_order_witness:
  "(\<exists>st'. runN uart ReadUntilValid 3 queuedReads initN = Inr st' \<and>
          postedHandlers st' = [1, 2, 3] \<and>
          prefix (postedHandlers st') (submittedR queuedReads)) \<and>
   (\<exists>sw'. runW uart twoWrites initW = Inr sw' \<and>
          postedHandlers sw' = [1, 2] \<and>
          prefix (postedHandlers sw') (submittedW twoWrites))"
proof -
  from queuedReads_run obtain st' where
    r: "runN uart ReadUntilValid 3 queuedReads initN = Inr st'" and
    p: "postedHandlers st' = [1, 2, 3]"
    by (auto simp: postedHandlers_def)
  from completions_in_submission_order[THEN conjunct1, rule_format, OF r]
  have "prefix (postedHandlers st') (submittedR queuedReads)"
    by (simp add: postedHandlers_def pendingN_def initN_def emptyLoop_def)
  with r p have A: "\<exists>st'. runN uart ReadUntilValid 3 queuedReads initN = Inr st' \<and>
      postedHandlers st' = [1, 2, 3] \<and> prefix (postedHandlers st') (submittedR queuedReads)"
    by blast
  from twoWrites_run obtain sw' where
    rw: "runW uart twoWrites initW = Inr sw'" and
    pw: "postedHandlers sw' = [1, 2]"
    by (auto simp: postedHandlers_def)
  from completions_in_submission_order[THEN conjunct2, rule_format, OF rw]
  have "prefix (postedHandlers sw') (submittedW twoWrites)"
    by (simp add: postedHandlers_def pendingW_def storedHandler_def initW_def emptyLoop_def)
  with rw pw have B: "\<exists>sw'. runW uart twoWrites initW = Inr sw' \<and>
      postedHandlers sw' = [1, 2] \<and> prefix (postedHandlers sw') (submittedW twoWrites)"
    by blast
  from A B show ?thesis by blast
qed

subsection \<open>Cancellation\<close>

lemma cancelRead_for_each_Inr:
  "cancelRead_for_each e q = Inr e' \<Longrightarrow>
     (\<forall>i\<in>set q. handler i \<noteq> None \<and> current i < start i + int (bufSize i)) \<and>
     e' = e\<lparr>elQueue := elQueue e @ map abortedEntry q\<rparr>"
proof (induction q arbitrary: e)
  case Nil
  then show ?case by simp
next
  case (Cons i rest)
  from Cons.prems obtain e1 i1 where
    c: "current i < start i + int (bufSize i)" and
    iv: "invokeHandler e i Aborted False = Inr (e1, i1)" and
    r: "cancelRead_for_each e1 rest = Inr e'"
    by (auto split: if_splits sum.splits)
  from iv obtain h where h: "handler i = Some h"
    "e1 = e\<lparr>elQueue := elQueue e @ [(False, h, Aborted, nat (current i - start i))]\<rparr>"
    by (auto simp: invokeHandler_Inr_iff)
  from Cons.IH[OF r] c h show ?case by (simp add: abortedEntry_def)
qed

lemma cancelRead_for_each_Inl:
  "cancelRead_for_each e q = Inl f \<Longrightarrow> f = AssertFailed"
  by (induction q arbitrary: e) (auto simp: invokeHandler_Inl_iff split: if_splits sum.splits)

lemma cancelReadN_cases:
  assumes "cancelRead D EventLoopContext (device st) = (True, d1)"
  shows "case cancelReadN D st of
         Inl f \<Rightarrow> f = AssertFailed
       | Inr (b, st') \<Rightarrow>
           b \<and> (\<forall>i\<in>set (queue st). handler i \<noteq> None \<and> current i < start i + int (bufSize i)) \<and>
           elQueue (el st') = elQueue (el st) @ map abortedEntry (queue st)"
proof (cases "cancelRead_for_each (el st) (queue st)")
  case (Inl f)
  with assms cancelRead_for_each_Inl[OF Inl] show ?thesis
    by (simp add: cancelReadN_def)
next
  case (Inr e')
  with assms cancelRead_for_each_Inr[OF Inr] show ?thesis
    by (simp add: cancelReadN_def)
qed

lemma abortedEntry_less:
  "start i \<le> current i \<Longrightarrow> current i < start i + int (bufSize i) \<Longrightarrow>
     fst (snd (snd (abortedEntry i))) = Aborted \<and> snd (snd (snd (abortedEntry i))) < bufSize i"
  by (simp add: abortedEntry_def)

lemma cancelRead1_cases:
  assumes "cancelRead D EventLoopContext (device st) = (True, d1)"
  shows "case cancelRead1 D st of
         Inl f \<Rightarrow> f = AssertFailed
       | Inr (b, st') \<Rightarrow>
           b \<and> handler (rinfo st) \<noteq> None \<and>
           current (rinfo st) < start (rinfo st) + int (bufSize (rinfo st)) \<and>
           elQueue (el st') = elQueue (el st) @ [abortedEntry (rinfo st)]"
  using assms
  by (auto simp: cancelRead1_def Let_def invokeHandler_Inr_iff invokeHandler_Inl_iff abortedEntry_def
           split: sum.splits)

lemma cancelWrite1_cases:
  assumes "cancelWrite D EventLoopContext (device st) = (True, d1)"
  shows "case cancelWrite1 D st of
         Inl f \<Rightarrow> f = AssertFailed
       | Inr (b, st') \<Rightarrow>
           b \<and> handler (winfo st) \<noteq> None \<and>
           current (winfo st) < start (winfo st) + int (bufSize (winfo st)) \<and>
           elQueue (el st') = elQueue (el st) @ [abortedEntry (winfo st)]"
  using assms
  by (auto simp: cancelWrite1_def Let_def invokeHandler_Inr_iff invokeHandler_Inl_iff abortedEntry_def
           split: sum.splits)

text \<open>
  Claim C10. Whenever the device-level cancel returns \<open>true\<close>, \<open>cancelRead\<close> (on either
  read engine) and \<open>cancelWrite\<close> either stop at an assertion or return \<open>true\<close>; when
  they return, every request they aborted had its handler stored and its cursor strictly
  below \<open>start + bufSize\<close>, the event loop received exactly one \<open>Aborted\<close> entry per
  request, in queue order, and each entry reports fewer bytes than the request asked for
  (the cursor never being below \<open>start\<close>).
\<close>

theorem aborted_reports_less_than_size:
  "(fst (cancelRead D EventLoopContext (device st)) \<longrightarrow>
      (case cancelReadN D st of
         Inl f \<Rightarrow> f = AssertFailed
       | Inr (b, st') \<Rightarrow>
           b \<and> (\<forall>i\<in>set (queue st). handler i \<noteq> None \<and> current i < start i + int (bufSize i)) \<and>
           elQueue (el st') = elQueue (el st) @ map abortedEntry (queue st) \<and>
           (\<forall>i\<in>set (queue st). start i \<le> current i \<longrightarrow>
                fst (snd (snd (abortedEntry i))) = Aborted \<and>
                snd (snd (snd (abortedEntry i))) < bufSize i))) \<and>
   (fst (cancelRead D1 EventLoopContext (device s1)) \<longrightarrow>
      (case cancelRead1 D1 s1 of
         Inl f \<Rightarrow> f = AssertFailed
       | Inr (b, s1') \<Rightarrow>
           b \<and> handler (rinfo s1) \<noteq> None \<and>
           current (rinfo s1) < start (rinfo s1) + int (bufSize (rinfo s1)) \<and>
           elQueue (el s1') = elQueue (el s1) @ [abortedEntry (rinfo s1)] \<and>
           (start (rinfo s1) \<le> current (rinfo s1) \<longrightarrow>
              fst (snd (snd (abortedEntry (rinfo s1)))) = Aborted \<and>
              snd (snd (snd (abortedEntry (rinfo s1)))) < bufSize (rinfo s1)))) \<and>
   (fst (cancelWrite DW EventLoopContext (device sw)) \<longrightarrow>
      (case cancelWrite1 DW sw of
         Inl f \<Rightarrow> f = AssertFailed
       | Inr (b, sw') \<Rightarrow>
           b \<and> handler (winfo sw) \<noteq> None \<and>
           current (winfo sw) < start (winfo sw) + int (bufSize (winfo sw)) \<and>
           elQueue (el sw') = elQueue (el sw) @ [abortedEntry (winfo sw)] \<and>
           (start (winfo sw) \<le> current (winfo sw) \<longrightarrow>
              fst (snd (snd (abortedEntry (winfo sw)))) = Aborted \<and>
              snd (snd (snd (abortedEntry (winfo sw)))) < bufSize (winfo sw))))"
proof (intro conjI impI)
  assume "fst (cancelRead D EventLoopContext (device st))"
  then obtain d1 where "cancelRead D EventLoopContext (device st) = (True, d1)"
    by (cases "cancelRead D EventLoopContext (device st)") auto
  from cancelReadN_cases[OF this] show "case cancelReadN D st of
         Inl f \<Rightarrow> f = AssertFailed
       | Inr (b, st') \<Rightarrow>
           b \<and> (\<forall>i\<in>set (queue st). handler i \<noteq> None \<and> current i < start i + int (bufSize i)) \<and>
           elQueue (el st') = elQueue (el st) @ map abortedEntry (queue st) \<and>
           (\<forall>i\<in>set (queue st). start i \<le> current i \<longrightarrow>
                fst (snd (snd (abortedEntry i))) = Aborted \<and>
                snd (snd (snd (abortedEntry i))) < bufSize i)"
    by (auto split: sum.splits dest: abortedEntry_less)
next
  assume "fst (cancelRead D1 EventLoopContext (device s1))"
  then obtain d1 where "cancelRead D1 EventLoopContext (device s1) = (True, d1)"
    by (cases "cancelRead D1 EventLoopContext (device s1)") auto
  from cancelRead1_cases[OF this] show "case cancelRead1 D1 s1 of
         Inl f \<Rightarrow> f = AssertFailed
       | Inr (b, s1') \<Rightarrow>
           b \<and> handler (rinfo s1) \<noteq> None \<and>
           current (rinfo s1) < start (rinfo s1) + int (bufSize (rinfo s1)) \<and>
           elQueue (el s1') = elQueue (el s1) @ [abortedEntry (rinfo s1)] \<and>
           (start (rinfo s1) \<le> current (rinfo s1) \<longrightarrow>
              fst (snd (snd (abortedEntry (rinfo s1)))) = Aborted \<and>
              snd (snd (snd (abortedEntry (rinfo s1)))) < bufSize (rinfo s1))"
    by (auto split: sum.splits dest: abortedEntry_less)
next
  assume "fst (cancelWrite DW EventLoopContext (device sw))"
  then obtain d1 where "cancelWrite DW EventLoopContext (device sw) = (True, d1)"
    by (cases "cancelWrite DW EventLoopContext (device sw)") auto
  from cancelWrite1_cases[OF this] show "case cancelWrite1 DW sw of
         Inl f \<Rightarrow> f = AssertFailed
       | Inr (b, sw') \<Rightarrow>
           b \<and> handler (winfo sw) \<noteq> None \<and>
           current (winfo sw) < start (winfo sw) + int (bufSize (winfo sw)) \<and>
           elQueue (el sw') = elQueue (el sw) @ [abortedEntry (winfo sw)] \<and>
           (start (winfo sw) \<le> current (winfo sw) \<longrightarrow>
              fst (snd (snd (abortedEntry (winfo sw)))) = Aborted \<and>
              snd (snd (snd (abortedEntry (winfo sw)))) < bufSize (winfo sw))"
    by (auto split: sum.splits dest: abortedEntry_less)
qed

theorem aborted_reports_less_than_size_witness:
  "fst (cancelRead uart EventLoopContext (device readInFlightN)) \<and>
   (\<exists>st'. cancelReadN uart readInFlightN = Inr (True, st') \<and>
          elQueue (el st') = [(False, 1, Aborted, 2), (False, 2, Aborted, 0)]) \<and>
   fst (cancelRead uart EventLoopContext (device readInFlight1)) \<and>
   (\<exists>s1'. cancelRead1 uart readInFlight1 = Inr (True, s1') \<and>
          elQueue (el s1') = [(False, 1, Aborted, 2)]) \<and>
   fst (cancelWrite uart EventLoopContext (device writeInFlight)) \<and>
   (\<exists>sw'. cancelWrite1 uart writeInFlight = Inr (True, sw') \<and>
          elQueue (el sw') = [(False, 1, Aborted, 2)])"
proof -
  have dn: "fst (cancelRead uart EventLoopContext (device readInFlightN))"
    by (simp add: uart_def readInFlightN_def armedUart_def idleUart_def)
  obtain b st' where rn: "cancelReadN uart readInFlightN = Inr (b, st')"
    by (cases "cancelReadN uart readInFlightN")
       (auto simp: cancelReadN_def uart_def readInFlightN_def armedUart_def idleUart_def
          emptyLoop_def invokeHandler_def post_def Let_def)
  from aborted_reports_less_than_size[THEN conjunct1, rule_format, OF dn] rn
  have "b \<and> elQueue (el st') = [(False, 1, Aborted, 2), (False, 2, Aborted, 0)]"
    by (simp add: readInFlightN_def emptyLoop_def abortedEntry_def)
  with rn have A: "\<exists>st'. cancelReadN uart readInFlightN = Inr (True, st') \<and>
      elQueue (el st') = [(False, 1, Aborted, 2), (False, 2, Aborted, 0)]"
    by auto
  have d1: "fst (cancelRead uart EventLoopContext (device readInFlight1))"
    by (simp add: uart_def readInFlight1_def armedUart_def idleUart_def)
  obtain b1 s1' where r1: "cancelRead1 uart readInFlight1 = Inr (b1, s1')"
    by (cases "cancelRead1 uart readInFlight1")
       (auto simp: cancelRead1_def uart_def readInFlight1_def armedUart_def idleUart_def
          emptyLoop_def invokeHandler_def post_def Let_def)
  from aborted_reports_less_than_size[THEN conjunct2, THEN conjunct1, rule_format, OF d1] r1
  have "b1 \<and> elQueue (el s1') = [(False, 1, Aborted, 2)]"
    by (simp add: readInFlight1_def emptyLoop_def abortedEntry_def)
  with r1 have B: "\<exists>s1'. cancelRead1 uart readInFlight1 = Inr (True, s1') \<and>
      elQueue (el s1') = [(False, 1, Aborted, 2)]"
    by auto
  have dw: "fst (cancelWrite uart EventLoopContext (device writeInFlight))"
    by (simp add: uart_def writeInFlight_def armedUart_def idleUart_def)
  obtain bw sw' where rw: "cancelWrite1 uart writeInFlight = Inr (bw, sw')"
    by (cases "cancelWrite1 uart writeInFlight")
       (auto simp: cancelWrite1_def uart_def writeInFlight_def armedUart_def idleUart_def
          emptyLoop_def invokeHandler_def post_def Let_def)
  from aborted_reports_less_than_size[THEN conjunct2, THEN conjunct2, rule_format, OF dw] rw
  have "bw \<and> elQueue (el sw') = [(False, 1, Aborted, 2)]"
    by (simp add: writeInFlight_def emptyLoop_def abortedEntry_def)
  with rw have C: "\<exists>sw'. cancelWrite1 uart writeInFlight = Inr (True, sw') \<and>
      elQueue (el sw') = [(False, 1, Aborted, 2)]"
    by auto
  from dn A d1 B dw C show ?thesis by blast
qed

lemma cancelReadN_idle:
  "cancelRead D EventLoopContext (device st) = (False, d1) \<Longrightarrow> queue st = [] \<Longrightarrow>
     cancelReadN D st = Inr (False, st\<lparr>device := d1\<rparr>)"
  by (simp add: cancelReadN_def)



text \<open>
  Claim C5, on the queued engine. A read of two bytes is running at the device and a
  zero-size read has been accepted behind it; nothing is posted yet. \<open>cancelRead\<close> then
  stops at an assertion instead of posting \<open>Aborted\<close> for the two requests: the
  assertion in the body of the \<open>for_each\<close> is evaluated for every queued request, and the
  zero-size request has \<open>current = start + bufSize\<close>. (Lemma \<open>cancelReadN_idle\<close> is the idle
  case of the claim, and \<open>cancelReadN_aborts_all\<close> the case where every queued request
  still has room.)
\<close>

theorem cancel_with_zero_size_request_queued:
  "completions (runN uart ReadUntilValid 3 zeroSizeBehind initN) = Inr [] \<and>
   runN uart ReadUntilValid 3 (zeroSizeBehind @ [CancelRead]) initN = Inl AssertFailed"
  by (simp add: completions_def zeroSizeBehind_def initN_def uart_def idleUart_def emptyLoop_def
        asyncReadN_def asyncReadUntilN_def startNextRead.simps cancelReadN_def dropResult_def
        invokeHandler_def post_def ctxOf_def Let_def)

subsection \<open>Submitting a read to the queued engine\<close>

lemma startNextRead_nonzero:
  "queue st = i # rest \<Longrightarrow> bufSize i \<noteq> 0 \<Longrightarrow>
     startNextRead D c st = Inr (st\<lparr>device := startRead D (bufSize i) (ctxOf c) (device st)\<rparr>)"
  by (simp add: startNextRead.simps)

text \<open>
  Claim C8. \<open>asyncRead\<close> is \<open>asyncReadUntil\<close> with a null predicate, and
  \<open>asyncReadUntil\<close> first suspends the device. With the queue full it stops at the
  assertion. Otherwise the new request is placed at the back of the queue. If the device
  was running, the device is resumed and that is all: nothing is started at the device and
  nothing is posted. If it was not running, the queue must hold exactly the new request
  (an assertion otherwise) and the next read is started from event-loop context: for a
  request of non-zero size this is \<open>startRead\<close> with the request's size and the
  event-loop context tag.
\<close>

theorem enqueue_protocol:
  "suspend D (device st) = (wasRunning, d1) \<longrightarrow>
     asyncReadN D n buf sz func st = asyncReadUntilN D n buf sz None func st \<and>
     (n \<le> length (queue st) \<longrightarrow> asyncReadUntilN D n buf sz pred func st = Inl AssertFailed) \<and>
     (length (queue st) < n \<and> wasRunning \<longrightarrow>
        asyncReadUntilN D n buf sz pred func st =
          Inr (st\<lparr>device := resume D d1, queue := queue st @ [newRequest buf sz pred func]\<rparr>)) \<and>
     (length (queue st) < n \<and> \<not> wasRunning \<and> queue st \<noteq> [] \<longrightarrow>
        asyncReadUntilN D n buf sz pred func st = Inl AssertFailed) \<and>
     (length (queue st) < n \<and> \<not> wasRunning \<and> queue st = [] \<longrightarrow>
        asyncReadUntilN D n buf sz pred func st =
          startNextRead D False (st\<lparr>device := d1, queue := [newRequest buf sz pred func]\<rparr>) \<and>
        (sz \<noteq> 0 \<longrightarrow>
           asyncReadUntilN D n buf sz pred func st =
             Inr (st\<lparr>device := startRead D sz EventLoopContext d1,
                     queue := [newRequest buf sz pred func]\<rparr>)))"
  by (auto simp: asyncReadN_def asyncReadUntilN_def newRequest_def Let_def ctxOf_def
        startNextRead_nonzero)

theorem enqueue_protocol_witness:
  "suspend uart (device initN) = (False, idleUart) \<and>
   asyncReadUntilN uart 3 0 2 None 1 initN =
     Inr (initN\<lparr>device := startRead uart 2 EventLoopContext idleUart,
               queue := [newRequest 0 2 None 1]\<rparr>) \<and>
   suspend uart (device readInFlightN) = (True, armedUart) \<and>
   asyncReadUntilN uart 3 20 5 None 3 readInFlightN =
     Inr (readInFlightN\<lparr>device := resume uart armedUart,
                        queue := queue readInFlightN @ [newRequest 20 5 None 3]\<rparr>)"
proof -
  have s0: "suspend uart (device initN) = (False, idleUart)"
    by (simp add: uart_def initN_def idleUart_def)
  have q0: "length (queue initN) < 3 \<and> \<not> False \<and> queue initN = []"
    by (simp add: initN_def)
  have s1: "suspend uart (device readInFlightN) = (True, armedUart)"
    by (simp add: uart_def readInFlightN_def armedUart_def idleUart_def)
  have q1: "length (queue readInFlightN) < 3 \<and> True"
    by (simp add: readInFlightN_def)
  have nz: "(2::nat) \<noteq> 0" by simp
  from enqueue_protocol[of uart initN False idleUart 3 0 2 1 None, rule_format, OF s0] q0 nz
  have A: "asyncReadUntilN uart 3 0 2 None 1 initN =
     Inr (initN\<lparr>device := startRead uart 2 EventLoopContext idleUart,
               queue := [newRequest 0 2 None 1]\<rparr>)"
    by blast
  from enqueue_protocol[of uart readInFlightN True armedUart 3 20 5 3 None, rule_format, OF s1] q1
  have B: "asyncReadUntilN uart 3 20 5 None 3 readInFlightN =
     Inr (readInFlightN\<lparr>device := resume uart armedUart,
                        queue := queue readInFlightN @ [newRequest 20 5 None 3]\<rparr>)"
    by blast
  from s0 A s1 B show ?thesis by blast
qed

subsection \<open>Zero-size requests\<close>

lemma invokeHandler_ok:
  "handler i = Some h \<Longrightarrow> length (elQueue e) < elCapacity e \<Longrightarrow>
     invokeHandler e i es c = Inr (posted c h es (nat (current i - start i)) e, i\<lparr>handler := None\<rparr>)"
  by (simp add: invokeHandler_def post_def postInterruptCtx_def posted_def Let_def)

text \<open>
  Claim C4 as stated fails on the queued engine: with a read already running at the
  device, a zero-size \<open>asyncRead\<close> is accepted and posts nothing.
\<close>

theorem zero_size_read_behind_running_read:
  "completions (asyncReadN uart 3 20 0 3 readInFlightN) = Inr []"
  by (simp add: completions_def asyncReadN_def asyncReadUntilN_def uart_def readInFlightN_def
        armedUart_def idleUart_def emptyLoop_def Let_def)

text \<open>
  Claim C4, amended. A zero-size request never reaches \<open>startRead\<close> or \<open>startWrite\<close> and
  is posted with \<open>(Success, 0)\<close>, or with \<open>(BufferOverflow, 0)\<close> for a read-until whose
  predicate is present. The single-slot engines post it inside the call of \<open>asyncRead\<close>,
  \<open>asyncReadUntil\<close> or \<open>asyncWrite\<close>, and leave the device untouched. The queued read
  engine posts it inside the call only when no read is running at the device (\<open>suspend\<close>
  returned \<open>false\<close>); with a read running, the call only puts the request at the back of
  the queue (the device is suspended and resumed), and the request is posted, with the
  same status and count, when \<open>startNextRead\<close> finds it at the front of the queue, which
  then goes on to the request behind it.
\<close>

theorem zero_size_requests:
  "(handler (rinfo sr) = None \<and> length (elQueue (el sr)) < elCapacity (el sr) \<longrightarrow>
      asyncRead1 D buf 0 func sr =
        Inr (sr\<lparr>el := posted False func Success 0 (el sr),
                rinfo := \<lparr>start = buf, current = buf, bufSize = 0, handler = None,
                          readUntilPred = None\<rparr>\<rparr>) \<and>
      asyncReadUntil1 D buf 0 pred func sr =
        Inr (sr\<lparr>el := posted False func (zeroSizeCode pred) 0 (el sr),
                rinfo := \<lparr>start = buf, current = buf, bufSize = 0, handler = None,
                          readUntilPred = pred\<rparr>\<rparr>)) \<and>
   (handler (winfo sw) = None \<and> length (elQueue (el sw)) < elCapacity (el sw) \<longrightarrow>
      asyncWrite DW buf 0 func sw =
        Inr (sw\<lparr>el := posted False func Success 0 (el sw),
                winfo := \<lparr>start = buf, current = buf, bufSize = 0, handler = None\<rparr>\<rparr>)) \<and>
   (suspend D (device st) = (False, dS) \<and> queue st = [] \<and> 0 < n \<and>
    length (elQueue (el st)) < elCapacity (el st) \<longrightarrow>
      asyncReadN D n buf 0 func st =
        Inr (st\<lparr>device := dS, el := posted False func Success 0 (el st), queue := []\<rparr>) \<and>
      asyncReadUntilN D n buf 0 pred func st =
        Inr (st\<lparr>device := dS, el := posted False func (zeroSizeCode pred) 0 (el st),
                queue := []\<rparr>)) \<and>
   (suspend D (device st) = (True, dS) \<and> length (queue st) < n \<longrightarrow>
      asyncReadUntilN D n buf 0 pred func st =
        Inr (st\<lparr>device := resume D dS, queue := queue st @ [newRequest buf 0 pred func]\<rparr>)) \<and>
   (queue st = i # rest \<and> bufSize i = 0 \<and> current i = start i \<and> handler i = Some h \<and>
    length (elQueue (el st)) < elCapacity (el st) \<longrightarrow>
      startNextRead D c st =
        startNextRead D c
          (st\<lparr>el := posted c h (zeroSizeCode (readUntilPred i)) 0 (el st), queue := rest\<rparr>))"
proof (intro conjI impI)
  assume a: "handler (rinfo sr) = None \<and> length (elQueue (el sr)) < elCapacity (el sr)"
  then show "asyncRead1 D buf 0 func sr =
        Inr (sr\<lparr>el := posted False func Success 0 (el sr),
                rinfo := \<lparr>start = buf, current = buf, bufSize = 0, handler = None,
                          readUntilPred = None\<rparr>\<rparr>)"
    by (simp add: asyncRead1_def initRead_def invokeHandler_ok Let_def)
  from a show "asyncReadUntil1 D buf 0 pred func sr =
        Inr (sr\<lparr>el := posted False func (zeroSizeCode pred) 0 (el sr),
                rinfo := \<lparr>start = buf, current = buf, bufSize = 0, handler = None,
                          readUntilPred = pred\<rparr>\<rparr>)"
    by (simp add: asyncReadUntil1_def initRead_def invokeHandler_ok Let_def zeroSizeCode_def)
next
  assume "handler (winfo sw) = None \<and> length (elQueue (el sw)) < elCapacity (el sw)"
  then show "asyncWrite DW buf 0 func sw =
        Inr (sw\<lparr>el := posted False func Success 0 (el sw),
                winfo := \<lparr>start = buf, current = buf, bufSize = 0, handler = None\<rparr>\<rparr>)"
    by (simp add: asyncWrite_def initWrite_def invokeHandler_ok Let_def)
next
  assume a: "suspend D (device st) = (False, dS) \<and> queue st = [] \<and> 0 < n \<and>
    length (elQueue (el st)) < elCapacity (el st)"
  have z: "\<And>p. asyncReadUntilN D n buf 0 p func st =
        Inr (st\<lparr>device := dS, el := posted False func (zeroSizeCode p) 0 (el st), queue := []\<rparr>)"
    using a
    by (simp add: asyncReadUntilN_def Let_def startNextRead.simps invokeHandler_ok
          zeroSizeCode_def)
  from z[of None] show "asyncReadN D n buf 0 func st =
        Inr (st\<lparr>device := dS, el := posted False func Success 0 (el st), queue := []\<rparr>)"
    by (simp add: asyncReadN_def zeroSizeCode_def)
  from z[of pred] show "asyncReadUntilN D n buf 0 pred func st =
        Inr (st\<lparr>device := dS, el := posted False func (zeroSizeCode pred) 0 (el st),
                queue := []\<rparr>)" .
next
  assume "suspend D (device st) = (True, dS) \<and> length (queue st) < n"
  then show "asyncReadUntilN D n buf 0 pred func st =
        Inr (st\<lparr>device := resume D dS, queue := queue st @ [newRequest buf 0 pred func]\<rparr>)"
    by (simp add: asyncReadUntilN_def Let_def newRequest_def)
next
  assume a: "queue st = i # rest \<and> bufSize i = 0 \<and> current i = start i \<and> handler i = Some h \<and>
    length (elQueue (el st)) < elCapacity (el st)"
  then show "startNextRead D c st =
        startNextRead D c
          (st\<lparr>el := posted c h (zeroSizeCode (readUntilPred i)) 0 (el st), queue := rest\<rparr>)"
    by (subst startNextRead.simps) (simp add: invokeHandler_ok zeroSizeCode_def Let_def)
qed

theorem zero_size_requests_witness:
  "asyncRead1 uart 0 0 1 init1 =
     Inr (init1\<lparr>el := posted False 1 Success 0 (el init1),
                rinfo := \<lparr>start = 0, current = 0, bufSize = 0, handler = None,
                          readUntilPred = None\<rparr>\<rparr>) \<and>
   asyncReadUntil1 uart 0 0 (Some isNewline) 1 init1 =
     Inr (init1\<lparr>el := posted False 1 BufferOverflow 0 (el init1),
                rinfo := \<lparr>start = 0, current = 0, bufSize = 0, handler = None,
                          readUntilPred = Some isNewline\<rparr>\<rparr>) \<and>
   asyncWrite uart 0 0 1 initW =
     Inr (initW\<lparr>el := posted False 1 Success 0 (el initW),
                winfo := \<lparr>start = 0, current = 0, bufSize = 0, handler = None\<rparr>\<rparr>) \<and>
   asyncReadUntilN uart 3 0 0 (Some isNewline) 1 initN =
     Inr (initN\<lparr>device := idleUart, el := posted False 1 BufferOverflow 0 (el initN),
               queue := []\<rparr>) \<and>
   asyncReadUntilN uart 3 20 0 None 3 readInFlightN =
     Inr (readInFlightN\<lparr>device := resume uart armedUart,
                        queue := queue readInFlightN @ [newRequest 20 0 None 3]\<rparr>)"
proof -
  have h1: "handler (rinfo init1) = None \<and> length (elQueue (el init1)) < elCapacity (el init1)"
    by (simp add: init1_def emptyReadInfo_def emptyLoop_def)
  have hw: "handler (winfo initW) = None \<and> length (elQueue (el initW)) < elCapacity (el initW)"
    by (simp add: initW_def emptyLoop_def)
  have hn: "suspend uart (device initN) = (False, idleUart) \<and> queue initN = [] \<and> 0 < (3::nat) \<and>
      length (elQueue (el initN)) < elCapacity (el initN)"
    by (simp add: initN_def uart_def idleUart_def emptyLoop_def)
  have hb: "suspend uart (device readInFlightN) = (True, armedUart) \<and>
      length (queue readInFlightN) < 3"
    by (simp add: readInFlightN_def uart_def armedUart_def idleUart_def)
  have c: "zeroSizeCode (Some isNewline) = BufferOverflow"
    by (simp add: zeroSizeCode_def)
  note z = zero_size_requests[where sr = init1 and D = uart and buf = 0 and func = 1
      and pred = "Some isNewline" and sw = initW and DW = uart and st = initN
      and dS = idleUart and n = 3]
  from z[THEN conjunct1, rule_format, OF h1] c
  have A: "asyncRead1 uart 0 0 1 init1 =
     Inr (init1\<lparr>el := posted False 1 Success 0 (el init1),
                rinfo := \<lparr>start = 0, current = 0, bufSize = 0, handler = None,
                          readUntilPred = None\<rparr>\<rparr>) \<and>
   asyncReadUntil1 uart 0 0 (Some isNewline) 1 init1 =
     Inr (init1\<lparr>el := posted False 1 BufferOverflow 0 (el init1),
                rinfo := \<lparr>start = 0, current = 0, bufSize = 0, handler = None,
                          readUntilPred = Some isNewline\<rparr>\<rparr>)"
    by simp
  from z[THEN conjunct2, THEN conjunct1, rule_format, OF hw]
  have B: "asyncWrite uart 0 0 1 initW =
     Inr (initW\<lparr>el := posted False 1 Success 0 (el initW),
                winfo := \<lparr>start = 0, current = 0, bufSize = 0, handler = None\<rparr>\<rparr>)" .
  from z[THEN conjunct2, THEN conjunct2, THEN conjunct1, rule_format, OF hn] c
  have C: "asyncReadUntilN uart 3 0 0 (Some isNewline) 1 initN =
     Inr (initN\<lparr>device := idleUart, el := posted False 1 BufferOverflow 0 (el initN),
               queue := []\<rparr>)"
    by simp
  from zero_size_requests[where D = uart and st = readInFlightN and dS = armedUart and n = 3
      and buf = 20 and pred = None and func = 3,
      THEN conjunct2, THEN conjunct2, THEN conjunct2, THEN conjunct1, rule_format, OF hb]
  have E: "asyncReadUntilN uart 3 20 0 None 3 readInFlightN =
     Inr (readInFlightN\<lparr>device := resume uart armedUart,
                        queue := queue readInFlightN @ [newRequest 20 0 None 3]\<rparr>)" .
  from A B C E show ?thesis by blast
qed

subsection \<open>Every handler is posted once\<close>

lemma seekedCharFound_iff:
  "seekedCharFound rs ch i \<longleftrightarrow> rs = ReadUntilValid \<and> (\<exists>p. readUntilPred i = Some p \<and> p ch)"
  by (cases rs) (auto split: option.splits)

lemma seekedCharFound_current:
  "seekedCharFound rs ch (i\<lparr>current := c\<rparr>) = seekedCharFound rs ch i"
  by (simp add: seekedCharFound_iff)













subsection \<open>The "read complete" interrupt\<close>

lemma completeCode_cases:
  "completeCode rs es lastByte j =
     (if es \<noteq> Success \<or> rs = ReadUntilInvalid \<or> readUntilPred j = None \<or>
         \<not> the (readUntilPred j) lastByte
      then es else BufferOverflow)"
  by (cases rs) (auto simp: completeCode_def isError_def split: option.splits)

lemma readCompleteN_needs_a_byte:
  "queue st = i # rest \<Longrightarrow> \<not> start i < current i \<Longrightarrow>
     readCompleteInterruptHandlerN D rs es st = Inl AssertFailed"
  by (simp add: readCompleteInterruptHandlerN_def)


text \<open>
  A read-until whose buffer fills without any byte satisfying the predicate is completed
  by the "read complete" interrupt with the status the device reported: with \<open>Success\<close>
  and the size of the buffer here, on both engines.
\<close>

theorem read_until_buffer_filled_without_match:
  "completions (run1 uart ReadUntilValid fullWithoutMatch init1) = Inr [(True, 1, Success, 3)] \<and>
   completions (runN uart ReadUntilValid 3 fullWithoutMatch initN) = Inr [(True, 1, Success, 3)]"
  by (simp add: completions_def fullWithoutMatch_def init1_def initN_def emptyReadInfo_def
        uart_def idleUart_def emptyLoop_def arrive_def isNewline_def
        asyncReadUntil1_def initRead_def asyncReadUntilN_def startNextRead.simps
        canReadInterruptHandler1.simps canReadStep1_def
        canReadInterruptHandlerN_def canReadLoopN.simps canReadStepN_def
        readCompleteInterruptHandler1_def readCompleteInterruptHandlerN_def
        invokeHandler_def post_def postInterruptCtx_def ctxOf_def isError_def Let_def)

subsection \<open>The "can read" interrupt and the read-until short circuit\<close>

lemma canReadStep1_no_match:
  "current (rinfo sr) < start (rinfo sr) + int (bufSize (rinfo sr)) \<Longrightarrow>
   read D (device sr) = (ch, dR) \<Longrightarrow> \<not> seekedCharFound rs ch (rinfo sr) \<Longrightarrow>
     canReadStep1 D rs sr =
       Inr (sr\<lparr>device := dR, memory := (memory sr)(current (rinfo sr) := ch),
               rinfo := (rinfo sr)\<lparr>current := current (rinfo sr) + 1\<rparr>\<rparr>)"
  by (simp add: canReadStep1_def Let_def seekedCharFound_current)

lemma canReadStep1_cancel_failed:
  "current (rinfo sr) < start (rinfo sr) + int (bufSize (rinfo sr)) \<Longrightarrow>
   read D (device sr) = (ch, dR) \<Longrightarrow> cancelRead D InterruptContext dR = (False, dC) \<Longrightarrow>
   seekedCharFound rs ch (rinfo sr) \<Longrightarrow>
     canReadStep1 D rs sr =
       Inr (sr\<lparr>device := dC, memory := (memory sr)(current (rinfo sr) := ch),
               rinfo := (rinfo sr)\<lparr>current := current (rinfo sr) + 1\<rparr>\<rparr>)"
  by (simp add: canReadStep1_def Let_def seekedCharFound_current)

lemma canReadStepN_no_match:
  "queue st = i # rest \<Longrightarrow> current i < start i + int (bufSize i) \<Longrightarrow>
   read D (device st) = (ch, dR) \<Longrightarrow> \<not> seekedCharFound rs ch i \<Longrightarrow>
     canReadStepN D rs st =
       Inr (None, st\<lparr>device := dR, memory := (memory st)(current i := ch),
                     queue := i\<lparr>current := current i + 1\<rparr> # rest\<rparr>)"
  by (simp add: canReadStepN_def Let_def seekedCharFound_current)

lemma canReadStepN_cancel_failed:
  "queue st = i # rest \<Longrightarrow> current i < start i + int (bufSize i) \<Longrightarrow>
   read D (device st) = (ch, dR) \<Longrightarrow> cancelRead D InterruptContext dR = (False, dC) \<Longrightarrow>
   seekedCharFound rs ch i \<Longrightarrow>
     canReadStepN D rs st =
       Inr (None, st\<lparr>device := dC, memory := (memory st)(current i := ch),
                     queue := i\<lparr>current := current i + 1\<rparr> # rest\<rparr>)"
  by (simp add: canReadStepN_def Let_def seekedCharFound_current)

text \<open>
  Claim C3. The delimiter of a read-until arrives with one more byte behind it (the
  second end-to-end scenario of the specification). The handler is posted with
  \<open>(Success, 3)\<close>, and the interrupt handler does not stop there: its loop has no exit
  after the short circuit, \<open>canRead\<close> is tested again, and the trailing byte is read and
  stored at offset three of the buffer whose completion has just been posted. On the
  queued engine with a second request waiting, that request has been started by then;
  the byte is still stored through the first request's cursor, the second request's
  cursor does not move and its buffer does not receive the byte.
\<close>

theorem short_circuit_keeps_draining:
  "completions (run1 uart ReadUntilValid readUntilThenMore init1) = Inr [(True, 1, Success, 3)] \<and>
   stored1 (run1 uart ReadUntilValid readUntilThenMore init1) =
     Inr [CHR ''a'', CHR ''b'', CHR 0x0A, CHR ''x''] \<and>
   completions (runN uart ReadUntilValid 3 readUntilThenMoreN initN) = Inr [(True, 1, Success, 3)] \<and>
   storedAt [0, 1, 2, 3, 10] (runN uart ReadUntilValid 3 readUntilThenMoreN initN) =
     Inr [CHR ''a'', CHR ''b'', CHR 0x0A, CHR ''x'', CHR 0x00] \<and>
   cursorsN (runN uart ReadUntilValid 3 readUntilThenMoreN initN) = Inr [(10, 10)]"
proof -
  have A: "completions (run1 uart ReadUntilValid readUntilThenMore init1)
      = Inr [(True, 1, Success, 3)] \<and>
    stored1 (run1 uart ReadUntilValid readUntilThenMore init1) =
      Inr [CHR ''a'', CHR ''b'', CHR 0x0A, CHR ''x'']"
    by (simp add: completions_def stored1_def readUntilThenMore_def init1_def emptyReadInfo_def
          uart_def idleUart_def arrive_def
          emptyLoop_def isNewline_def asyncReadUntil1_def initRead_def
          canReadInterruptHandler1.simps canReadStep1_def
          invokeHandler_def post_def postInterruptCtx_def Let_def upto.simps)
  have "\<exists>st'. runN uart ReadUntilValid 3 readUntilThenMoreN initN = Inr st' \<and>
      elQueue (el st') = [(True, 1, Success, 3)] \<and>
      map (memory st') [0, 1, 2, 3, 10] = [CHR ''a'', CHR ''b'', CHR 0x0A, CHR ''x'', CHR 0x00] \<and>
      map (\<lambda>i. (start i, current i)) (queue st') = [(10, 10)]"
    by (simp add: readUntilThenMoreN_def initN_def uart_def idleUart_def arrive_def
          emptyLoop_def isNewline_def asyncReadN_def asyncReadUntilN_def startNextRead.simps
          canReadInterruptHandlerN_def canReadLoopN.simps canReadStepN_def canReadStepPopped_def
          invokeHandler_def post_def postInterruptCtx_def ctxOf_def Let_def)
  then have B: "completions (runN uart ReadUntilValid 3 readUntilThenMoreN initN)
      = Inr [(True, 1, Success, 3)] \<and>
    storedAt [0, 1, 2, 3, 10] (runN uart ReadUntilValid 3 readUntilThenMoreN initN) =
      Inr [CHR ''a'', CHR ''b'', CHR 0x0A, CHR ''x'', CHR 0x00] \<and>
    cursorsN (runN uart ReadUntilValid 3 readUntilThenMoreN initN) = Inr [(10, 10)]"
    by (auto simp: completions_def storedAt_def cursorsN_def)
  from A B show ?thesis by blast
qed

subsection \<open>The cursor stays in bounds\<close>

lemma startNextRead_unchanged:
  "startNextRead D c st = Inr st' \<Longrightarrow>
     memory st' = memory st \<and> (\<exists>ps. queue st = ps @ queue st')"
proof (induction D c st arbitrary: st' rule: startNextRead.induct)
  case (1 D c st)
  show ?case
  proof (cases "queue st")
    case Nil
    with "1.prems" show ?thesis by (simp add: startNextRead.simps)
  next
    case (Cons i rest)
    show ?thesis
    proof (cases "bufSize i = 0")
      case False
      with Cons "1.prems" show ?thesis by (auto simp: startNextRead.simps)
    next
      case True
      let ?code = "if readUntilPred i \<noteq> None then BufferOverflow else Success"
      from "1.prems" Cons True obtain e' i' where
        ih: "invokeHandler (el st) i ?code c = Inr (e', i')" and
        rec: "startNextRead D c (st\<lparr>el := e', queue := rest\<rparr>) = Inr st'"
        by (auto simp: startNextRead.simps Let_def split: sum.splits)
      from "1.IH"[OF Cons True refl ih refl rec] obtain ps where
        "memory st' = memory st" "rest = ps @ queue st'" by auto
      with Cons have "memory st' = memory st" "queue st = (i # ps) @ queue st'" by simp_all
      then show ?thesis by blast
    qed
  qed
qed

lemma startNextRead_cursorOk:
  assumes "startNextRead D c st = Inr st'" and "\<forall>i\<in>set (queue st). cursorOk i"
  shows "\<forall>i\<in>set (queue st'). cursorOk i"
  using startNextRead_unchanged[OF assms(1)] assms(2) by auto

lemma canReadStepN_frame:
  assumes "canReadStepN D rs st = Inr (p, st')" and "queue st = i # rest" and "cursorOk i"
  shows "(\<forall>a. \<not> inBuffer i a \<longrightarrow> memory st' a = memory st a) \<and>
         (case p of
            Some i2 \<Rightarrow> (\<exists>ps. rest = ps @ queue st') \<and> start i2 = start i \<and>
                       bufSize i2 = bufSize i \<and> cursorOk i2
          | None \<Rightarrow> \<exists>i'. queue st' = i' # rest \<and> start i' = start i \<and> bufSize i' = bufSize i \<and>
                         cursorOk i')"
proof (cases p)
  case None
  with assms show ?thesis
    by (auto simp: canReadStepN_def Let_def cursorOk_def inBuffer_def
             split: if_splits prod.splits sum.splits)
next
  case (Some i2)
  with assms obtain s2 where
    nx: "startNextRead D True s2 = Inr st'" and
    s2: "queue s2 = rest" "\<forall>a. \<not> inBuffer i a \<longrightarrow> memory s2 a = memory st a" and
    i2: "start i2 = start i" "bufSize i2 = bufSize i" "cursorOk i2"
    by (auto simp: canReadStepN_def Let_def cursorOk_def inBuffer_def invokeHandler_Inr_iff
             split: if_splits prod.splits sum.splits)
  from startNextRead_unchanged[OF nx] s2 i2 Some show ?thesis by auto
qed

lemma canReadStepN_cursorOk:
  assumes "canReadStepN D rs st = Inr (p, st')" and "\<forall>i\<in>set (queue st). cursorOk i"
  shows "(\<forall>i\<in>set (queue st'). cursorOk i) \<and> (\<forall>i. p = Some i \<longrightarrow> cursorOk i)"
proof -
  from assms(1) obtain i rest where q: "queue st = i # rest"
    by (auto simp: canReadStepN_def split: list.splits)
  with assms(2) have ok: "cursorOk i" "\<forall>j\<in>set rest. cursorOk j" by auto
  from canReadStepN_frame[OF assms(1) q ok(1)] ok(2) show ?thesis
    by (cases p) auto
qed

lemma canReadStepPopped_frame:
  assumes "canReadStepPopped D rs i st = Inr (i1, st')" and "cursorOk i"
  shows "inBuffer i (current i) \<and> (\<forall>a. a \<noteq> current i \<longrightarrow> memory st' a = memory st a) \<and>
         start i1 = start i \<and> bufSize i1 = bufSize i \<and> current i1 = current i + 1 \<and>
         cursorOk i1 \<and> (\<exists>ps. queue st = ps @ queue st')"
proof -
  obtain ch d1 where rd: "read D (device st) = (ch, d1)" by (cases "read D (device st)")
  obtain c d2 where cd: "cancelRead D InterruptContext d1 = (c, d2)"
    by (cases "cancelRead D InterruptContext d1")
  from assms have lt: "current i < start i + int (bufSize i)"
    by (auto simp: canReadStepPopped_def split: if_splits)
  let ?i1 = "i\<lparr>current := current i + 1\<rparr>"
  let ?m = "(memory st)(current i := ch)"
  show ?thesis
  proof (cases "seekedCharFound rs ch ?i1 \<and> c")
    case False
    with assms rd cd lt show ?thesis
      by (auto simp: canReadStepPopped_def Let_def cursorOk_def inBuffer_def split: if_splits)
  next
    case True
    with assms(1) rd cd lt obtain e' i2 j rest s2 where
      iv: "invokeHandler (el st) ?i1 Success True = Inr (e', i2)" and
      q: "queue st = j # rest" and
      nx: "startNextRead D True s2 = Inr st'" and
      s2: "memory s2 = ?m" "queue s2 = rest" and
      r: "i1 = i2"
      by (auto simp: canReadStepPopped_def Let_def split: if_splits sum.splits list.splits)
    from iv have i2: "i2 = ?i1\<lparr>handler := None\<rparr>" by (auto simp: invokeHandler_Inr_iff)
    from startNextRead_unchanged[OF nx] s2 obtain ps where
      m: "memory st' = ?m" and ps: "rest = ps @ queue st'" by auto
    from q ps have "queue st = (j # ps) @ queue st'" by simp
    then have "\<exists>ps. queue st = ps @ queue st'" by blast
    with m i2 r lt assms(2) show ?thesis
      by (simp add: cursorOk_def inBuffer_def)
  qed
qed

lemma canReadLoopN_cursorOk:
  "canReadLoopN D rs popped st = Inr st' \<Longrightarrow> \<forall>i\<in>set (queue st). cursorOk i \<Longrightarrow>
   \<forall>i. popped = Some i \<longrightarrow> cursorOk i \<Longrightarrow>
     \<forall>i\<in>set (queue st'). cursorOk i"
proof (induction D rs popped st arbitrary: st' rule: canReadLoopN.induct)
  case (1 D rs popped st)
  show ?case
  proof (cases "canRead D (device st)")
    case False
    with "1.prems" show ?thesis by (simp add: canReadLoopN.simps)
  next
    case True
    show ?thesis
    proof (cases popped)
      case None
      with True "1.prems"(1) obtain p st1 where
        stp: "canReadStepN D rs st = Inr (p, st1)" and
        lp: "canReadLoopN D rs p st1 = Inr st'"
        by (cases "canReadStepN D rs st") (auto simp: canReadLoopN.simps[of D rs None st])
      note ok = canReadStepN_cursorOk[OF stp "1.prems"(2)]
      from "1.IH"(1)[OF _ None stp refl lp] True ok show ?thesis by simp
    next
      case (Some i)
      with True "1.prems"(1) obtain i1 st1 where
        stp: "canReadStepPopped D rs i st = Inr (i1, st1)" and
        lp: "canReadLoopN D rs (Some i1) st1 = Inr st'"
        by (cases "canReadStepPopped D rs i st") (auto simp: canReadLoopN.simps[of D rs "Some i" st])
      from "1.prems"(3) Some have "cursorOk i" by simp
      note fr = canReadStepPopped_frame[OF stp this]
      from fr "1.prems"(2) have q1: "\<forall>j\<in>set (queue st1). cursorOk j" by auto
      from fr have "\<forall>j. Some i1 = Some j \<longrightarrow> cursorOk j" by simp
      from "1.IH"(2)[OF _ Some stp refl lp q1 this] True show ?thesis by simp
    qed
  qed
qed

lemma canReadLoopN_frame:
  "canReadLoopN D rs popped st = Inr st' \<Longrightarrow>
   popped = Some f \<or> (popped = None \<and> (\<exists>rest. queue st = f # rest)) \<Longrightarrow> cursorOk f \<Longrightarrow>
     \<forall>a. \<not> inBuffer f a \<longrightarrow> memory st' a = memory st a"
proof (induction D rs popped st arbitrary: st' f rule: canReadLoopN.induct)
  case (1 D rs popped st)
  show ?case
  proof (cases "canRead D (device st)")
    case False
    with "1.prems" show ?thesis by (simp add: canReadLoopN.simps)
  next
    case True
    show ?thesis
    proof (cases popped)
      case None
      with "1.prems"(2) obtain rest where q: "queue st = f # rest" by auto
      from None True "1.prems"(1) obtain p st1 where
        stp: "canReadStepN D rs st = Inr (p, st1)" and
        lp: "canReadLoopN D rs p st1 = Inr st'"
        by (cases "canReadStepN D rs st") (auto simp: canReadLoopN.simps[of D rs None st])
      note fr = canReadStepN_frame[OF stp q "1.prems"(3)]
      from fr obtain f1 where
        f1: "p = Some f1 \<or> (p = None \<and> (\<exists>rest. queue st1 = f1 # rest))"
          "start f1 = start f" "bufSize f1 = bufSize f" "cursorOk f1"
        by (cases p) auto
      from "1.IH"(1)[OF _ None stp refl lp f1(1) f1(4)] True
      have "\<forall>a. \<not> inBuffer f1 a \<longrightarrow> memory st' a = memory st1 a" by simp
      moreover from f1 have "inBuffer f1 = inBuffer f" by (simp add: inBuffer_def fun_eq_iff)
      ultimately show ?thesis using fr by simp
    next
      case (Some i)
      with "1.prems"(2) have fi: "f = i" by auto
      from Some True "1.prems"(1) obtain i1 st1 where
        stp: "canReadStepPopped D rs i st = Inr (i1, st1)" and
        lp: "canReadLoopN D rs (Some i1) st1 = Inr st'"
        by (cases "canReadStepPopped D rs i st") (auto simp: canReadLoopN.simps[of D rs "Some i" st])
      from "1.prems"(3) fi have "cursorOk i" by simp
      note fr = canReadStepPopped_frame[OF stp this]
      from fr have ok1: "cursorOk i1" by simp
      have "Some i1 = Some i1 \<or> (Some i1 = None \<and> (\<exists>rest. queue st1 = i1 # rest))" by simp
      from "1.IH"(2)[OF _ Some stp refl lp this ok1] True
      have "\<forall>a. \<not> inBuffer i1 a \<longrightarrow> memory st' a = memory st1 a" by simp
      moreover from fr have "inBuffer i1 = inBuffer i" by (simp add: inBuffer_def fun_eq_iff)
      moreover from fr have "\<forall>a. \<not> inBuffer i a \<longrightarrow> memory st1 a = memory st a" by metis
      ultimately show ?thesis using fi by simp
    qed
  qed
qed

lemma stepN_cursorOk:
  assumes "stepN D rs n ev st = Inr st'" and "\<forall>i\<in>set (queue st). cursorOk i"
  shows "\<forall>i\<in>set (queue st'). cursorOk i"
proof (cases ev)
  case (AsyncReadUntil buf sz pred func)
  obtain susp d1 where sd: "suspend D (device st) = (susp, d1)" by (cases "suspend D (device st)")
  let ?st1 = "st\<lparr>device := d1, queue := queue st @ [newRequest buf sz pred func]\<rparr>"
  have ok1: "\<forall>i\<in>set (queue ?st1). cursorOk i"
    using assms(2) by (auto simp: newRequest_def cursorOk_def)
  from assms(1) AsyncReadUntil sd have
    "st' = ?st1\<lparr>device := resume D d1\<rparr> \<or> startNextRead D False ?st1 = Inr st'"
    by (auto simp: asyncReadUntilN_def Let_def newRequest_def split: if_splits)
  with ok1 startNextRead_cursorOk[of D False ?st1 st'] show ?thesis by auto
next
  case (AsyncRead buf sz func)
  obtain susp d1 where sd: "suspend D (device st) = (susp, d1)" by (cases "suspend D (device st)")
  let ?st1 = "st\<lparr>device := d1, queue := queue st @ [newRequest buf sz None func]\<rparr>"
  have ok1: "\<forall>i\<in>set (queue ?st1). cursorOk i"
    using assms(2) by (auto simp: newRequest_def cursorOk_def)
  from assms(1) AsyncRead sd have
    "st' = ?st1\<lparr>device := resume D d1\<rparr> \<or> startNextRead D False ?st1 = Inr st'"
    by (auto simp: asyncReadN_def asyncReadUntilN_def Let_def newRequest_def split: if_splits)
  with ok1 startNextRead_cursorOk[of D False ?st1 st'] show ?thesis by auto
next
  case CancelRead
  with assms(1) have "queue st' = []"
    by (auto simp: dropResult_def cancelReadN_def Let_def split: sum.splits prod.splits if_splits)
  then show ?thesis by simp
next
  case CanReadInterrupt
  with assms(1) have "canReadLoopN D rs None st = Inr st'"
    by (auto simp: canReadInterruptHandlerN_def split: if_splits)
  from canReadLoopN_cursorOk[OF this assms(2)] show ?thesis by simp
next
  case (ReadCompleteInterrupt es)
  with assms(1) obtain i rest s2 where
    q: "queue st = i # rest" and nx: "startNextRead D True s2 = Inr st'" and s2: "queue s2 = rest"
    by (auto simp: readCompleteInterruptHandlerN_def split: list.splits if_splits sum.splits)
  from q s2 assms(2) have "\<forall>j\<in>set (queue s2). cursorOk j" by simp
  from startNextRead_cursorOk[OF nx this] show ?thesis .
next
  case (ReadHardware f)
  with assms show ?thesis by auto
qed

lemma runN_cursorOk:
  "runN D rs n evs st = Inr st' \<Longrightarrow> \<forall>i\<in>set (queue st). cursorOk i \<Longrightarrow>
     \<forall>i\<in>set (queue st'). cursorOk i"
proof (induction evs arbitrary: st)
  case Nil
  then show ?case by simp
next
  case (Cons ev evs)
  from Cons.prems(1) obtain st1 where
    s1: "stepN D rs n ev st = Inr st1" and r: "runN D rs n evs st1 = Inr st'"
    by (auto split: sum.splits)
  from Cons.IH[OF r stepN_cursorOk[OF s1 Cons.prems(2)]] show ?case .
qed

lemma canReadStep1_frame:
  assumes "canReadStep1 D rs st = Inr st'" and "cursorOk (rinfo st)"
  shows "(\<forall>a. \<not> inBuffer (rinfo st) a \<longrightarrow> memory st' a = memory st a) \<and>
         start (rinfo st') = start (rinfo st) \<and> bufSize (rinfo st') = bufSize (rinfo st) \<and>
         cursorOk (rinfo st')"
  using assms
  by (auto simp: canReadStep1_def Let_def cursorOk_def inBuffer_def invokeHandler_Inr_iff
           split: if_splits prod.splits sum.splits)

lemma canReadInterruptHandler1_frame:
  "canReadInterruptHandler1 D rs st = Inr st' \<Longrightarrow> cursorOk (rinfo st) \<Longrightarrow>
     (\<forall>a. \<not> inBuffer (rinfo st) a \<longrightarrow> memory st' a = memory st a) \<and>
     start (rinfo st') = start (rinfo st) \<and> bufSize (rinfo st') = bufSize (rinfo st) \<and>
     cursorOk (rinfo st')"
proof (induction D rs st arbitrary: st' rule: canReadInterruptHandler1.induct)
  case (1 D rs st)
  show ?case
  proof (cases "canRead D (device st)")
    case False
    with "1.prems" show ?thesis by (simp add: canReadInterruptHandler1.simps)
  next
    case True
    with "1.prems" obtain st1 where
      stp: "canReadStep1 D rs st = Inr st1" and
      lp: "canReadInterruptHandler1 D rs st1 = Inr st'"
      by (auto simp: canReadInterruptHandler1.simps[of D rs st] split: sum.splits)
    note fr = canReadStep1_frame[OF stp "1.prems"(2)]
    from "1.IH"[OF _ stp lp] True fr
    have ih: "(\<forall>a. \<not> inBuffer (rinfo st1) a \<longrightarrow> memory st' a = memory st1 a) \<and>
      start (rinfo st') = start (rinfo st1) \<and> bufSize (rinfo st') = bufSize (rinfo st1) \<and>
      cursorOk (rinfo st')" by simp
    from fr have "inBuffer (rinfo st1) = inBuffer (rinfo st)"
      by (simp add: inBuffer_def fun_eq_iff)
    with ih fr show ?thesis by simp
  qed
qed

lemma step1_cursorOk:
  assumes "step1 D rs ev st = Inr st'" and "cursorOk (rinfo st)"
  shows "cursorOk (rinfo st')"
proof (cases ev)
  case (AsyncRead buf sz func)
  with assms(1) show ?thesis
    by (auto simp: asyncRead1_def initRead_def Let_def cursorOk_def invokeHandler_Inr_iff
             split: if_splits sum.splits)
next
  case (AsyncReadUntil buf sz pred func)
  with assms(1) show ?thesis
    by (auto simp: asyncReadUntil1_def initRead_def Let_def cursorOk_def invokeHandler_Inr_iff
             split: if_splits sum.splits)
next
  case CancelRead
  with assms show ?thesis
    by (auto simp: dropResult_def cancelRead1_def Let_def cursorOk_def invokeHandler_Inr_iff
             split: if_splits sum.splits prod.splits)
next
  case CanReadInterrupt
  with assms canReadInterruptHandler1_frame[of D rs st st'] show ?thesis by simp
next
  case (ReadCompleteInterrupt es)
  with assms show ?thesis
    by (auto simp: readCompleteInterruptHandler1_def Let_def cursorOk_def invokeHandler_Inr_iff
             split: if_splits sum.splits)
next
  case (ReadHardware f)
  with assms show ?thesis by (auto simp: cursorOk_def)
qed

lemma run1_cursorOk:
  "run1 D rs evs st = Inr st' \<Longrightarrow> cursorOk (rinfo st) \<Longrightarrow> cursorOk (rinfo st')"
proof (induction evs arbitrary: st)
  case Nil
  then show ?case by simp
next
  case (Cons ev evs)
  from Cons.prems(1) obtain st1 where
    s1: "step1 D rs ev st = Inr st1" and r: "run1 D rs evs st1 = Inr st'"
    by (auto split: sum.splits)
  from Cons.IH[OF r step1_cursorOk[OF s1 Cons.prems(2)]] show ?case .
qed

lemma canWriteInterruptHandler_cursorOk:
  "canWriteInterruptHandler D st = Inr st' \<Longrightarrow> cursorOk (winfo st) \<Longrightarrow>
     cursorOk (winfo st') \<and> memory st' = memory st"
proof (induction D st arbitrary: st' rule: canWriteInterruptHandler.induct)
  case (1 D st)
  show ?case
  proof (cases "canWrite D (device st)")
    case False
    with "1.prems" show ?thesis by (simp add: canWriteInterruptHandler.simps)
  next
    case True
    with "1.prems" obtain st1 where
      stp: "canWriteStep D st = Inr st1" and
      lp: "canWriteInterruptHandler D st1 = Inr st'"
      by (auto simp: canWriteInterruptHandler.simps[of D st] split: sum.splits)
    from stp "1.prems"(2) have ok1: "cursorOk (winfo st1)" "memory st1 = memory st"
      by (auto simp: canWriteStep_def Let_def cursorOk_def split: if_splits)
    from "1.IH"[OF _ stp lp ok1(1)] True ok1(2) show ?thesis by simp
  qed
qed

lemma stepW_cursorOk:
  assumes "stepW D ev st = Inr st'" and "cursorOk (winfo st)"
  shows "cursorOk (winfo st')"
proof (cases ev)
  case (AsyncWrite buf sz func)
  with assms(1) show ?thesis
    by (auto simp: asyncWrite_def initWrite_def Let_def cursorOk_def invokeHandler_Inr_iff
             split: if_splits sum.splits)
next
  case CancelWrite
  with assms show ?thesis
    by (auto simp: dropResult_def cancelWrite1_def Let_def cursorOk_def invokeHandler_Inr_iff
             split: if_splits sum.splits prod.splits)
next
  case CanWriteInterrupt
  with assms canWriteInterruptHandler_cursorOk[of D st st'] show ?thesis by simp
next
  case (WriteCompleteInterrupt es)
  with assms show ?thesis
    by (auto simp: writeCompleteInterruptHandler_def cursorOk_def invokeHandler_Inr_iff
             split: sum.splits)
next
  case (WriteHardware f)
  with assms show ?thesis by (auto simp: cursorOk_def)
qed

lemma runW_cursorOk:
  "runW D evs st = Inr st' \<Longrightarrow> cursorOk (winfo st) \<Longrightarrow> cursorOk (winfo st')"
proof (induction evs arbitrary: st)
  case Nil
  then show ?case by simp
next
  case (Cons ev evs)
  from Cons.prems(1) obtain st1 where
    s1: "stepW D ev st = Inr st1" and r: "runW D evs st1 = Inr st'"
    by (auto split: sum.splits)
  from Cons.IH[OF r stepW_cursorOk[OF s1 Cons.prems(2)]] show ?case .
qed

lemma canWriteInterruptHandler_fetch:
  "\<forall>a. current (winfo st) \<le> a \<and> a < start (winfo st) + int (bufSize (winfo st))
        \<longrightarrow> m a = memory st a \<Longrightarrow>
     canWriteInterruptHandler D (st\<lparr>memory := m\<rparr>) = withMemory m (canWriteInterruptHandler D st)"
proof (induction D st rule: canWriteInterruptHandler.induct)
  case (1 D st)
  show ?case
  proof (cases "canWrite D (device st)")
    case False
    then show ?thesis
      by (simp add: canWriteInterruptHandler.simps[of D st]
            canWriteInterruptHandler.simps[of D "st\<lparr>memory := m\<rparr>"] withMemory_def)
  next
    case True
    show ?thesis
    proof (cases "canWriteStep D st")
      case (Inl f)
      with True show ?thesis
        by (auto simp: canWriteInterruptHandler.simps[of D st]
              canWriteInterruptHandler.simps[of D "st\<lparr>memory := m\<rparr>"] withMemory_def
              canWriteStep_def Let_def split: if_splits)
    next
      case (Inr st1)
      then have lt: "current (winfo st) < start (winfo st) + int (bufSize (winfo st))"
        and st1: "st1 = st\<lparr>device := writeCh D (memory st (current (winfo st))) (device st),
                   winfo := (winfo st)\<lparr>current := current (winfo st) + 1\<rparr>\<rparr>"
        by (auto simp: canWriteStep_def Let_def split: if_splits)
      from lt "1.prems" have same: "m (current (winfo st)) = memory st (current (winfo st))" by simp
      have stm: "canWriteStep D (st\<lparr>memory := m\<rparr>) = Inr (st1\<lparr>memory := m\<rparr>)"
        using lt same st1 by (simp add: canWriteStep_def Let_def)
      have pre: "\<forall>a. current (winfo st1) \<le> a \<and> a < start (winfo st1) + int (bufSize (winfo st1))
          \<longrightarrow> m a = memory st1 a"
        using "1.prems" st1 by simp
      from "1.IH"[OF _ Inr pre] True
      have "canWriteInterruptHandler D (st1\<lparr>memory := m\<rparr>) =
          withMemory m (canWriteInterruptHandler D st1)" by simp
      with True Inr stm show ?thesis
        by (simp add: canWriteInterruptHandler.simps[of D st]
              canWriteInterruptHandler.simps[of D "st\<lparr>memory := m\<rparr>"])
    qed
  qed
qed

lemma partialRead_runN:
  "\<exists>st'. runN uart ReadUntilValid 3 partialRead initN = Inr st' \<and>
         map current (queue st') = [2] \<and> map (memory st') [0, 1, 2] = [CHR ''a'', CHR ''b'', CHR 0x00]"
  by (simp add: partialRead_def initN_def uart_def idleUart_def emptyLoop_def arrive_def
        asyncReadN_def asyncReadUntilN_def startNextRead.simps canReadLoopN.simps
        canReadStepN_def canReadInterruptHandlerN_def ctxOf_def Let_def)

lemma partialRead_run1:
  "\<exists>st'. run1 uart ReadUntilValid partialRead init1 = Inr st' \<and>
         current (rinfo st') = 2 \<and> map (memory st') [0, 1, 2] = [CHR ''a'', CHR ''b'', CHR 0x00]"
  by (simp add: partialRead_def init1_def emptyReadInfo_def uart_def idleUart_def emptyLoop_def
        arrive_def asyncRead1_def initRead_def canReadInterruptHandler1.simps
        canReadStep1_def Let_def)

lemma partialWrite_run:
  "\<exists>st'. runW uart partialWrite initW = Inr st' \<and> current (winfo st') = 2"
  by (simp add: partialWrite_def initW_def uart_def idleUart_def emptyLoop_def
        asyncWrite_def initWrite_def canWriteInterruptHandler.simps canWriteStep_def Let_def)

lemma delimiterThenMoreN_run:
  "\<exists>st'. canReadInterruptHandlerN uart ReadUntilValid delimiterThenMoreN = Inr st' \<and>
         elQueue (el st') = [(True, 1, Success, 3)] \<and>
         map (memory st') [2, 3] = [CHR 0x0A, CHR ''x''] \<and>
         map (\<lambda>i. (start i, current i)) (queue st') = [(10, 10)]"
  by (simp add: delimiterThenMoreN_def uart_def armedUart_def idleUart_def emptyLoop_def
        isNewline_def startNextRead.simps canReadInterruptHandlerN_def canReadLoopN.simps
        canReadStepN_def canReadStepPopped_def
        invokeHandler_def postInterruptCtx_def ctxOf_def Let_def)

text \<open>
  Claim C6. \<open>start \<le> current \<le> start + bufSize\<close> holds for every request of an engine
  after every run that hits no assertion, if it held before, and a request enters an
  engine with \<open>current = start\<close>; it also holds after every single pass of the loops of
  the "can read" and "can write" interrupts. That includes the passes the queued engine
  makes after a read-until short circuit, which go through the request that was popped:
  such a pass stores its byte at the cursor of that request, inside its buffer, and
  leaves its cursor in bounds, whatever else the popped request holds. The "can read"
  interrupt changes the store only inside the
  buffer \<open>[start, start + bufSize)\<close> of the request that was at the front when it was
  entered, and the "can write" interrupt depends on the store only inside the buffer of
  its request. When the cursor stands at \<open>start + bufSize\<close> and the device reports
  readiness, the loop stops at the assertion and transfers nothing.
\<close>

theorem cursor_stays_in_bounds:
  "(runN D rs n evs st = Inr st' \<and> (\<forall>i\<in>set (queue st). cursorOk i) \<longrightarrow>
      (\<forall>i\<in>set (queue st'). cursorOk i)) \<and>
   (canReadStepN D rs st = Inr (p, st') \<and> (\<forall>i\<in>set (queue st). cursorOk i) \<longrightarrow>
      (\<forall>i\<in>set (queue st'). cursorOk i) \<and> (\<forall>i. p = Some i \<longrightarrow> cursorOk i)) \<and>
   (canReadStepPopped D rs i st = Inr (i1, st') \<and> cursorOk i \<and>
    (\<forall>j\<in>set (queue st). cursorOk j) \<longrightarrow>
      cursorOk i1 \<and> (\<forall>j\<in>set (queue st'). cursorOk j) \<and> inBuffer i (current i) \<and>
      (\<forall>a. a \<noteq> current i \<longrightarrow> memory st' a = memory st a)) \<and>
   (run1 D rs evs sr = Inr sr' \<and> cursorOk (rinfo sr) \<longrightarrow> cursorOk (rinfo sr')) \<and>
   (canReadStep1 D rs sr = Inr sr' \<and> cursorOk (rinfo sr) \<longrightarrow> cursorOk (rinfo sr')) \<and>
   (runW DW evsW sw = Inr sw' \<and> cursorOk (winfo sw) \<longrightarrow> cursorOk (winfo sw')) \<and>
   (canWriteStep DW sw = Inr sw' \<and> cursorOk (winfo sw) \<longrightarrow> cursorOk (winfo sw')) \<and>
   (canReadInterruptHandlerN D rs st = Inr st' \<and> queue st = i # rest \<and> cursorOk i \<longrightarrow>
      (\<forall>a. \<not> inBuffer i a \<longrightarrow> memory st' a = memory st a)) \<and>
   (canReadInterruptHandler1 D rs sr = Inr sr' \<and> cursorOk (rinfo sr) \<longrightarrow>
      (\<forall>a. \<not> inBuffer (rinfo sr) a \<longrightarrow> memory sr' a = memory sr a)) \<and>
   (cursorOk (winfo sw) \<and> (\<forall>a. inBuffer (winfo sw) a \<longrightarrow> m a = memory sw a) \<longrightarrow>
      canWriteInterruptHandler DW (sw\<lparr>memory := m\<rparr>) =
        withMemory m (canWriteInterruptHandler DW sw)) \<and>
   (canRead D (device st) \<and> queue st = i # rest \<and> start i + int (bufSize i) \<le> current i \<longrightarrow>
      canReadLoopN D rs None st = Inl AssertFailed \<and>
      canReadInterruptHandlerN D rs st = Inl AssertFailed) \<and>
   (canRead D (device st) \<and> start i + int (bufSize i) \<le> current i \<longrightarrow>
      canReadLoopN D rs (Some i) st = Inl AssertFailed) \<and>
   (canRead D (device sr) \<and>
    start (rinfo sr) + int (bufSize (rinfo sr)) \<le> current (rinfo sr) \<longrightarrow>
      canReadInterruptHandler1 D rs sr = Inl AssertFailed) \<and>
   (canWrite DW (device sw) \<and>
    start (winfo sw) + int (bufSize (winfo sw)) \<le> current (winfo sw) \<longrightarrow>
      canWriteInterruptHandler DW sw = Inl AssertFailed) \<and>
   (canReadLoopN D rs (Some i) st = Inr st' \<and> cursorOk i \<and>
    (\<forall>j\<in>set (queue st). cursorOk j) \<longrightarrow>
      (\<forall>j\<in>set (queue st'). cursorOk j) \<and>
      (\<forall>a. \<not> inBuffer i a \<longrightarrow> memory st' a = memory st a))"
proof (intro conjI impI)
  assume "runN D rs n evs st = Inr st' \<and> (\<forall>i\<in>set (queue st). cursorOk i)"
  then show "\<forall>i\<in>set (queue st'). cursorOk i" using runN_cursorOk by blast
next
  assume a: "canReadStepN D rs st = Inr (p, st') \<and> (\<forall>i\<in>set (queue st). cursorOk i)"
  from canReadStepN_cursorOk[of D rs st p st'] a
  show "\<forall>i\<in>set (queue st'). cursorOk i" "\<forall>i. p = Some i \<longrightarrow> cursorOk i" by blast+
next
  assume a: "canReadStepPopped D rs i st = Inr (i1, st') \<and> cursorOk i \<and>
    (\<forall>j\<in>set (queue st). cursorOk j)"
  then have stp: "canReadStepPopped D rs i st = Inr (i1, st')" and ok: "cursorOk i"
    and q: "\<forall>j\<in>set (queue st). cursorOk j" by simp_all
  note fr = canReadStepPopped_frame[OF stp ok]
  from fr show "cursorOk i1" by simp
  from fr q show "\<forall>j\<in>set (queue st'). cursorOk j" by auto
  from fr show "inBuffer i (current i)" by simp
  from fr show "\<forall>a. a \<noteq> current i \<longrightarrow> memory st' a = memory st a" by simp
next
  assume "run1 D rs evs sr = Inr sr' \<and> cursorOk (rinfo sr)"
  then show "cursorOk (rinfo sr')" using run1_cursorOk by blast
next
  assume "canReadStep1 D rs sr = Inr sr' \<and> cursorOk (rinfo sr)"
  then show "cursorOk (rinfo sr')" using canReadStep1_frame by blast
next
  assume "runW DW evsW sw = Inr sw' \<and> cursorOk (winfo sw)"
  then show "cursorOk (winfo sw')" using runW_cursorOk by blast
next
  assume "canWriteStep DW sw = Inr sw' \<and> cursorOk (winfo sw)"
  then show "cursorOk (winfo sw')"
    by (auto simp: canWriteStep_def Let_def cursorOk_def split: if_splits)
next
  assume a: "canReadInterruptHandlerN D rs st = Inr st' \<and> queue st = i # rest \<and> cursorOk i"
  then have lp: "canReadLoopN D rs None st = Inr st'"
    by (auto simp: canReadInterruptHandlerN_def split: if_splits)
  from a have "None = Some i \<or> ((None :: ('c, 'b) ReadInfo option) = None \<and> (\<exists>rest. queue st = i # rest))"
    by simp
  from canReadLoopN_frame[OF lp this] a
  show "\<forall>a. \<not> inBuffer i a \<longrightarrow> memory st' a = memory st a" by blast
next
  assume "canReadInterruptHandler1 D rs sr = Inr sr' \<and> cursorOk (rinfo sr)"
  then show "\<forall>a. \<not> inBuffer (rinfo sr) a \<longrightarrow> memory sr' a = memory sr a"
    using canReadInterruptHandler1_frame by blast
next
  assume "cursorOk (winfo sw) \<and> (\<forall>a. inBuffer (winfo sw) a \<longrightarrow> m a = memory sw a)"
  then have "\<forall>a. current (winfo sw) \<le> a \<and> a < start (winfo sw) + int (bufSize (winfo sw))
        \<longrightarrow> m a = memory sw a"
    by (auto simp: cursorOk_def inBuffer_def)
  then show "canWriteInterruptHandler DW (sw\<lparr>memory := m\<rparr>) =
        withMemory m (canWriteInterruptHandler DW sw)"
    by (rule canWriteInterruptHandler_fetch)
next
  assume a: "canRead D (device st) \<and> queue st = i # rest \<and>
    start i + int (bufSize i) \<le> current i"
  then show l: "canReadLoopN D rs None st = Inl AssertFailed"
    by (simp add: canReadLoopN.simps[of D rs None st] canReadStepN_def)
  from a l show "canReadInterruptHandlerN D rs st = Inl AssertFailed"
    by (simp add: canReadInterruptHandlerN_def)
next
  assume "canRead D (device st) \<and> start i + int (bufSize i) \<le> current i"
  then show "canReadLoopN D rs (Some i) st = Inl AssertFailed"
    by (simp add: canReadLoopN.simps[of D rs "Some i" st] canReadStepPopped_def)
next
  assume "canRead D (device sr) \<and>
    start (rinfo sr) + int (bufSize (rinfo sr)) \<le> current (rinfo sr)"
  then show "canReadInterruptHandler1 D rs sr = Inl AssertFailed"
    by (simp add: canReadInterruptHandler1.simps[of D rs sr] canReadStep1_def)
next
  assume "canWrite DW (device sw) \<and>
    start (winfo sw) + int (bufSize (winfo sw)) \<le> current (winfo sw)"
  then show "canWriteInterruptHandler DW sw = Inl AssertFailed"
    by (simp add: canWriteInterruptHandler.simps[of DW sw] canWriteStep_def)
next
  assume a: "canReadLoopN D rs (Some i) st = Inr st' \<and> cursorOk i \<and>
    (\<forall>j\<in>set (queue st). cursorOk j)"
  then have lp: "canReadLoopN D rs (Some i) st = Inr st'" and ok: "cursorOk i"
    and q: "\<forall>j\<in>set (queue st). cursorOk j" by simp_all
  from ok have "\<forall>k. Some i = Some k \<longrightarrow> cursorOk k" by simp
  from canReadLoopN_cursorOk[OF lp q this] show "\<forall>j\<in>set (queue st'). cursorOk j" .
  have "Some i = Some i \<or> (Some i = None \<and> (\<exists>rest. queue st = i # rest))" by simp
  from canReadLoopN_frame[OF lp this ok]
  show "\<forall>a. \<not> inBuffer i a \<longrightarrow> memory st' a = memory st a" .
qed

theorem cursor_stays_in_bounds_witness:
  "(\<exists>st'. runN uart ReadUntilValid 3 partialRead initN = Inr st' \<and>
          list_all cursorOk (queue st') \<and> map current (queue st') = [2]) \<and>
   (\<exists>sr'. run1 uart ReadUntilValid partialRead init1 = Inr sr' \<and>
          cursorOk (rinfo sr') \<and> current (rinfo sr') = 2) \<and>
   (\<exists>sw'. runW uart partialWrite initW = Inr sw' \<and>
          cursorOk (winfo sw') \<and> current (winfo sw') = 2) \<and>
   canReadStepN uart ReadUntilValid delimiterThenMoreN
     = Inr (Some poppedRequest, afterShortCircuitN) \<and>
   cursorOk poppedRequest \<and> list_all cursorOk (queue afterShortCircuitN) \<and>
   (\<exists>i1 st'. canReadStepPopped uart ReadUntilValid poppedRequest afterShortCircuitN
            = Inr (i1, st') \<and>
          cursorOk i1 \<and> current i1 = 4 \<and> memory st' 3 = CHR ''x'' \<and>
          memory st' 10 = memory afterShortCircuitN 10) \<and>
   (\<exists>st'. canReadLoopN uart ReadUntilValid (Some poppedRequest) afterShortCircuitN = Inr st' \<and>
          memory st' 3 = CHR ''x'' \<and> memory st' 10 = memory afterShortCircuitN 10 \<and>
          list_all cursorOk (queue st')) \<and>
   canReadLoopN uart ReadUntilValid (Some (poppedRequest\<lparr>current := 8\<rparr>)) afterShortCircuitN
     = Inl AssertFailed \<and>
   (\<exists>sr'. canReadStep1 uart ReadUntilValid delimiterNext1 = Inr sr' \<and>
          cursorOk (rinfo sr') \<and> current (rinfo sr') = 3) \<and>
   (\<exists>sw'. canWriteStep uart writeReady = Inr sw' \<and>
          cursorOk (winfo sw') \<and> current (winfo sw') = 3) \<and>
   (\<exists>st'. canReadInterruptHandlerN uart ReadUntilValid delimiterThenMoreN = Inr st' \<and>
          map (memory st') [2, 3] = [CHR 0x0A, CHR ''x''] \<and>
          memory st' 10 = memory delimiterThenMoreN 10) \<and>
   (\<exists>sr'. canReadInterruptHandler1 uart ReadUntilValid delimiterNext1 = Inr sr' \<and>
          memory sr' 2 = CHR 0x0A \<and> memory sr' 8 = memory delimiterNext1 8) \<and>
   canWriteInterruptHandler uart (writeReady\<lparr>memory := (\<lambda>a. CHR ''a'')(4 := CHR ''z'')\<rparr>) =
     withMemory ((\<lambda>a. CHR ''a'')(4 := CHR ''z'')) (canWriteInterruptHandler uart writeReady) \<and>
   canRead uart (device overrunN) \<and>
   canReadInterruptHandlerN uart ReadUntilValid overrunN = Inl AssertFailed \<and>
   canRead uart (device overrun1) \<and>
   canReadInterruptHandler1 uart ReadUntilValid overrun1 = Inl AssertFailed \<and>
   canWrite uart (device overrunW) \<and>
   canWriteInterruptHandler uart overrunW = Inl AssertFailed"
proof -
  note c = cursor_stays_in_bounds[where D = uart and DW = uart and rs = ReadUntilValid]
  note c4 = c[THEN conjunct2, THEN conjunct2, THEN conjunct2]
  note c6 = c4[THEN conjunct2, THEN conjunct2]
  note c8 = c6[THEN conjunct2, THEN conjunct2]
  note c11 = c8[THEN conjunct2, THEN conjunct2, THEN conjunct2]
  note c13 = c11[THEN conjunct2, THEN conjunct2]
  from partialRead_runN obtain st' where
    rn: "runN uart ReadUntilValid 3 partialRead initN = Inr st'" and
    cn: "map current (queue st') = [2]" by auto
  have "\<forall>i\<in>set (queue initN). cursorOk i" by (simp add: initN_def)
  with c[THEN conjunct1, rule_format, of 3 partialRead initN st'] rn
  have "list_all cursorOk (queue st')" by (simp add: list_all_iff)
  with rn cn have A: "\<exists>st'. runN uart ReadUntilValid 3 partialRead initN = Inr st' \<and>
      list_all cursorOk (queue st') \<and> map current (queue st') = [2]" by (intro exI[of _ st'] conjI)
  from partialRead_run1 obtain sr' where
    r1: "run1 uart ReadUntilValid partialRead init1 = Inr sr'" and
    c1: "current (rinfo sr') = 2" by auto
  have "cursorOk (rinfo init1)" by (simp add: init1_def emptyReadInfo_def cursorOk_def)
  with c4[THEN conjunct1, rule_format, of partialRead init1 sr'] r1
  have "cursorOk (rinfo sr')" by simp
  with r1 c1 have B: "\<exists>sr'. run1 uart ReadUntilValid partialRead init1 = Inr sr' \<and>
      cursorOk (rinfo sr') \<and> current (rinfo sr') = 2" by blast
  from partialWrite_run obtain sw' where
    rw: "runW uart partialWrite initW = Inr sw'" and
    cw: "current (winfo sw') = 2" by auto
  have "cursorOk (winfo initW)" by (simp add: initW_def cursorOk_def)
  with c6[THEN conjunct1, rule_format, of partialWrite initW sw'] rw
  have "cursorOk (winfo sw')" by simp
  with rw cw have C: "\<exists>sw'. runW uart partialWrite initW = Inr sw' \<and>
      cursorOk (winfo sw') \<and> current (winfo sw') = 2" by blast
  let ?f = "\<lparr>start = 0, current = 2, bufSize = 8, handler = Some (1::nat),
             readUntilPred = Some isNewline\<rparr>"
  let ?g = "\<lparr>start = 10, current = 10, bufSize = 3, handler = Some (2::nat),
             readUntilPred = (None :: (char \<Rightarrow> bool) option)\<rparr>"
  from delimiterThenMoreN_run obtain sn where
    rs: "canReadInterruptHandlerN uart ReadUntilValid delimiterThenMoreN = Inr sn" and
    ms: "map (memory sn) [2, 3] = [CHR 0x0A, CHR ''x'']" by auto
  have oks: "queue delimiterThenMoreN = ?f # [?g]" "cursorOk ?f" "\<not> inBuffer ?f 10"
    by (simp_all add: delimiterThenMoreN_def cursorOk_def inBuffer_def)
  from c8[THEN conjunct1, rule_format, of delimiterThenMoreN sn ?f "[?g]" 10] rs oks
  have "memory sn 10 = memory delimiterThenMoreN 10" by simp
  with rs ms have S: "\<exists>st'. canReadInterruptHandlerN uart ReadUntilValid delimiterThenMoreN = Inr st' \<and>
      map (memory st') [2, 3] = [CHR 0x0A, CHR ''x''] \<and>
      memory st' 10 = memory delimiterThenMoreN 10" by (intro exI[of _ sn] conjI)
  have "\<exists>sr'. canReadInterruptHandler1 uart ReadUntilValid delimiterNext1 = Inr sr' \<and>
      memory sr' 2 = CHR 0x0A"
    by (simp add: delimiterNext1_def uart_def armedUart_def idleUart_def emptyLoop_def
          isNewline_def canReadInterruptHandler1.simps canReadStep1_def
          invokeHandler_def postInterruptCtx_def Let_def)
  then obtain sf where
    rf: "canReadInterruptHandler1 uart ReadUntilValid delimiterNext1 = Inr sf" and
    mf: "memory sf 2 = CHR 0x0A" by auto
  have okf: "cursorOk (rinfo delimiterNext1)" "\<not> inBuffer (rinfo delimiterNext1) 8"
    by (simp_all add: delimiterNext1_def cursorOk_def inBuffer_def)
  from c8[THEN conjunct2, THEN conjunct1, rule_format, of delimiterNext1 sf 8] rf okf
  have "memory sf 8 = memory delimiterNext1 8" by simp
  with rf mf have E: "\<exists>sr'. canReadInterruptHandler1 uart ReadUntilValid delimiterNext1 = Inr sr' \<and>
      memory sr' 2 = CHR 0x0A \<and> memory sr' 8 = memory delimiterNext1 8" by blast
  have okw: "cursorOk (winfo writeReady) \<and>
      (\<forall>a. inBuffer (winfo writeReady) a \<longrightarrow>
           ((\<lambda>a. CHR ''a'')(4 := CHR ''z'')) a = memory writeReady a)"
    by (simp add: writeReady_def writeInFlight_def cursorOk_def inBuffer_def)
  from c8[THEN conjunct2, THEN conjunct2, THEN conjunct1, rule_format, OF okw]
  have F: "canWriteInterruptHandler uart (writeReady\<lparr>memory := (\<lambda>a. CHR ''a'')(4 := CHR ''z'')\<rparr>) =
     withMemory ((\<lambda>a. CHR ''a'')(4 := CHR ''z'')) (canWriteInterruptHandler uart writeReady)" .
  let ?i = "\<lparr>start = 0, current = 4, bufSize = 4, handler = Some (1::nat),
             readUntilPred = (None :: (char \<Rightarrow> bool) option)\<rparr>"
  have on: "canRead uart (device overrunN) \<and> queue overrunN = ?i # [] \<and>
      start ?i + int (bufSize ?i) \<le> current ?i"
    by (simp add: overrunN_def uart_def armedUart_def idleUart_def)
  from c11[THEN conjunct1, rule_format, OF on]
  have G: "canReadInterruptHandlerN uart ReadUntilValid overrunN = Inl AssertFailed" by simp
  have o1: "canRead uart (device overrun1) \<and>
      start (rinfo overrun1) + int (bufSize (rinfo overrun1)) \<le> current (rinfo overrun1)"
    by (simp add: overrun1_def uart_def armedUart_def idleUart_def)
  from c13[THEN conjunct1, rule_format, OF o1]
  have H: "canReadInterruptHandler1 uart ReadUntilValid overrun1 = Inl AssertFailed" .
  have ow: "canWrite uart (device overrunW) \<and>
      start (winfo overrunW) + int (bufSize (winfo overrunW)) \<le> current (winfo overrunW)"
    by (simp add: overrunW_def uart_def armedUart_def idleUart_def)
  from c13[THEN conjunct2, THEN conjunct1, rule_format, OF ow]
  have I: "canWriteInterruptHandler uart overrunW = Inl AssertFailed" .
  note stp = delimiterThenMoreN_step
  have "\<forall>k\<in>set (queue delimiterThenMoreN). cursorOk k"
    by (simp add: delimiterThenMoreN_def cursorOk_def)
  with c[THEN conjunct2, THEN conjunct1, rule_format,
      of delimiterThenMoreN "Some poppedRequest" afterShortCircuitN] stp
  have W2: "cursorOk poppedRequest" "list_all cursorOk (queue afterShortCircuitN)"
    by (simp_all add: list_all_iff)
  have "\<exists>i1 st'. canReadStepPopped uart ReadUntilValid poppedRequest afterShortCircuitN
        = Inr (i1, st') \<and> current i1 = 4 \<and> memory st' 3 = CHR ''x''"
    by (simp add: canReadStepPopped_def poppedRequest_def afterShortCircuitN_def uart_def
          armedUart_def idleUart_def isNewline_def Let_def)
  then obtain p1 sp where
    rp: "canReadStepPopped uart ReadUntilValid poppedRequest afterShortCircuitN = Inr (p1, sp)" and
    cp: "current p1 = 4" and mp: "memory sp 3 = CHR ''x''" by auto
  from W2 have okq: "\<forall>k\<in>set (queue afterShortCircuitN). cursorOk k" by (simp add: list_all_iff)
  from c[THEN conjunct2, THEN conjunct2, THEN conjunct1, rule_format,
      of poppedRequest afterShortCircuitN p1 sp] rp W2(1) okq
  have fp: "cursorOk p1 \<and> (\<forall>a. a \<noteq> current poppedRequest \<longrightarrow>
      memory sp a = memory afterShortCircuitN a)" by simp
  then have "memory sp 10 = memory afterShortCircuitN 10" by (simp add: poppedRequest_def)
  with rp cp mp fp have W3: "\<exists>i1 st'. canReadStepPopped uart ReadUntilValid poppedRequest
        afterShortCircuitN = Inr (i1, st') \<and>
      cursorOk i1 \<and> current i1 = 4 \<and> memory st' 3 = CHR ''x'' \<and>
      memory st' 10 = memory afterShortCircuitN 10"
    by (intro exI[of _ p1] exI[of _ sp] conjI) simp_all
  from afterShortCircuitN_loop obtain sl where
    rl: "canReadLoopN uart ReadUntilValid (Some poppedRequest) afterShortCircuitN = Inr sl" and
    ml: "memory sl 3 = CHR ''x''" by auto
  have nb: "\<not> inBuffer poppedRequest 10" by (simp add: poppedRequest_def inBuffer_def)
  from c13[THEN conjunct2, THEN conjunct2, rule_format,
      of poppedRequest afterShortCircuitN sl] rl W2(1) okq
  have fl: "(\<forall>k\<in>set (queue sl). cursorOk k) \<and>
      (\<forall>a. \<not> inBuffer poppedRequest a \<longrightarrow> memory sl a = memory afterShortCircuitN a)" by simp
  with nb have "memory sl 10 = memory afterShortCircuitN 10" "list_all cursorOk (queue sl)"
    by (simp_all add: list_all_iff)
  with rl ml have W15: "\<exists>st'. canReadLoopN uart ReadUntilValid (Some poppedRequest)
        afterShortCircuitN = Inr st' \<and>
      memory st' 3 = CHR ''x'' \<and> memory st' 10 = memory afterShortCircuitN 10 \<and>
      list_all cursorOk (queue st')"
    by (intro exI[of _ sl] conjI)
  let ?p8 = "poppedRequest\<lparr>current := 8\<rparr>"
  have o12: "canRead uart (device afterShortCircuitN) \<and>
      start ?p8 + int (bufSize ?p8) \<le> current ?p8"
    by (simp add: afterShortCircuitN_def poppedRequest_def uart_def armedUart_def idleUart_def)
  from c11[THEN conjunct2, THEN conjunct1, rule_format, OF o12]
  have W12: "canReadLoopN uart ReadUntilValid (Some ?p8) afterShortCircuitN = Inl AssertFailed" .
  have "\<exists>sr'. canReadStep1 uart ReadUntilValid delimiterNext1 = Inr sr' \<and>
      current (rinfo sr') = 3"
    by (simp add: canReadStep1_def delimiterNext1_def uart_def armedUart_def idleUart_def
          emptyLoop_def isNewline_def invokeHandler_def postInterruptCtx_def Let_def)
  then obtain s5 where r5: "canReadStep1 uart ReadUntilValid delimiterNext1 = Inr s5" and
    c5: "current (rinfo s5) = 3" by auto
  from c4[THEN conjunct2, THEN conjunct1, rule_format, of delimiterNext1 s5] r5 okf(1)
  have "cursorOk (rinfo s5)" by simp
  with r5 c5 have W5: "\<exists>sr'. canReadStep1 uart ReadUntilValid delimiterNext1 = Inr sr' \<and>
      cursorOk (rinfo sr') \<and> current (rinfo sr') = 3" by blast
  have "\<exists>sw'. canWriteStep uart writeReady = Inr sw' \<and> current (winfo sw') = 3"
    by (simp add: canWriteStep_def writeReady_def writeInFlight_def Let_def)
  then obtain s7 where r7: "canWriteStep uart writeReady = Inr s7" and
    c7: "current (winfo s7) = 3" by auto
  from okw have "cursorOk (winfo writeReady)" by simp
  with c6[THEN conjunct2, THEN conjunct1, rule_format, of writeReady s7] r7
  have "cursorOk (winfo s7)" by simp
  with r7 c7 have W7: "\<exists>sw'. canWriteStep uart writeReady = Inr sw' \<and>
      cursorOk (winfo sw') \<and> current (winfo sw') = 3" by blast
  from A B C stp W2 W3 W15 W12 W5 W7 S E F on G o1 H ow I show ?thesis by (intro conjI) simp_all
qed

subsection \<open>Reads without a predicate\<close>

lemma startNextRead_exact:
  "startNextRead D c st = Inr st' \<Longrightarrow>
     \<exists>k. elQueue (el st') = elQueue (el st) @ map (zeroEntry c) (take k (queue st)) \<and>
         queue st' = drop k (queue st) \<and>
         (\<forall>j\<in>set (take k (queue st)). bufSize j = 0 \<and> handler j \<noteq> None)"
proof (induction D c st arbitrary: st' rule: startNextRead.induct)
  case (1 D c st)
  show ?case
  proof (cases "queue st")
    case Nil
    with "1.prems" have "st' = st" by (simp add: startNextRead.simps)
    with Nil show ?thesis by simp
  next
    case (Cons i rest)
    show ?thesis
    proof (cases "bufSize i = 0")
      case False
      with Cons "1.prems" have "el st' = el st" "queue st' = queue st"
        by (auto simp: startNextRead.simps)
      then have "elQueue (el st') = elQueue (el st) @ map (zeroEntry c) (take 0 (queue st)) \<and>
          queue st' = drop 0 (queue st) \<and>
          (\<forall>j\<in>set (take 0 (queue st)). bufSize j = 0 \<and> handler j \<noteq> None)" by simp
      then show ?thesis by blast
    next
      case True
      let ?code = "if readUntilPred i \<noteq> None then BufferOverflow else Success"
      from "1.prems" Cons True obtain e' i' where
        ih: "invokeHandler (el st) i ?code c = Inr (e', i')" and
        rec: "startNextRead D c (st\<lparr>el := e', queue := rest\<rparr>) = Inr st'"
        by (auto simp: startNextRead.simps Let_def split: sum.splits)
      from ih obtain h where h: "handler i = Some h" and
        e': "elQueue e' = elQueue (el st) @ [(c, h, ?code, nat (current i - start i))]"
        by (auto simp: invokeHandler_Inr_iff)
      from "1.IH"[OF Cons True refl ih refl rec] obtain k where
        k: "elQueue (el st') = elQueue e' @ map (zeroEntry c) (take k rest)"
           "queue st' = drop k rest"
           "\<forall>j\<in>set (take k rest). bufSize j = 0 \<and> handler j \<noteq> None" by auto
      have z: "zeroEntry c i = (c, h, ?code, nat (current i - start i))"
        using h by (simp add: zeroEntry_def zeroSizeCode_def)
      from k e' z Cons True h
      have "elQueue (el st') = elQueue (el st) @ map (zeroEntry c) (take (Suc k) (queue st)) \<and>
          queue st' = drop (Suc k) (queue st) \<and>
          (\<forall>j\<in>set (take (Suc k) (queue st)). bufSize j = 0 \<and> handler j \<noteq> None)" by simp
      then show ?thesis by blast
    qed
  qed
qed

lemma plainEntries_zero:
  assumes "\<forall>j. bufSize j = 0 \<longrightarrow> plainStatus ev False j Success"
    and "\<forall>j. bufSize j = 0 \<longrightarrow> plainStatus ev f j Success"
    and "\<forall>j\<in>set (take k q). bufSize j = 0 \<and> handler j \<noteq> None"
  shows "plainEntries ev f q (map (zeroEntry c) (take k q))"
  using assms(2,3)
proof (induction q arbitrary: k f)
  case Nil
  then show ?case by simp
next
  case (Cons j q)
  show ?case
  proof (cases k)
    case 0
    then show ?thesis by simp
  next
    case (Suc k')
    with Cons.prems have j: "bufSize j = 0" "handler j \<noteq> None"
      and r: "\<forall>i\<in>set (take k' q). bufSize i = 0 \<and> handler i \<noteq> None" by auto
    from Cons.IH[OF assms(1) r] have "plainEntries ev False q (map (zeroEntry c) (take k' q))" .
    moreover have "fst (snd (zeroEntry c j)) = the (handler j)"
      "statusOf (zeroEntry c j) = zeroSizeCode (readUntilPred j)"
      by (simp_all add: zeroEntry_def statusOf_def)
    ultimately show ?thesis
      using j Cons.prems(1) Suc by (auto simp: zeroSizeCode_def)
  qed
qed

lemma plainEntries_aborted:
  "\<forall>j\<in>set q. handler j \<noteq> None \<Longrightarrow> plainEntries CancelRead f q (map abortedEntry q)"
  by (induction q arbitrary: f) (auto simp: abortedEntry_def statusOf_def)

lemma canReadStepN_cases:
  assumes "canReadStepN D rs st = Inr (p, st')" and "queue st = i # rest"
  shows "(p = None \<and> el st' = el st \<and>
          (\<exists>i'. queue st' = i' # rest \<and> handler i' = handler i \<and>
                readUntilPred i' = readUntilPred i \<and> start i' = start i \<and>
                bufSize i' = bufSize i)) \<or>
         (\<exists>i2 h k. p = Some i2 \<and> handler i2 = None \<and> rs = ReadUntilValid \<and>
                   readUntilPred i \<noteq> None \<and> handler i = Some h \<and>
                   elQueue (el st') =
                     elQueue (el st) @ (True, h, Success, nat (current i + 1 - start i))
                       # map (zeroEntry True) (take k rest) \<and>
                   (\<forall>j\<in>set (take k rest). bufSize j = 0 \<and> handler j \<noteq> None))"
proof (cases p)
  case None
  with assms show ?thesis
    by (auto simp: canReadStepN_def Let_def split: if_splits prod.splits sum.splits)
next
  case (Some i2)
  with assms obtain ch h s2 where
    f: "seekedCharFound rs ch i" and
    h: "handler i = Some h" "handler i2 = None" and
    nx: "startNextRead D True s2 = Inr st'" and
    s2: "queue s2 = rest"
        "elQueue (el s2) = elQueue (el st) @ [(True, h, Success, nat (current i + 1 - start i))]"
    by (auto simp: canReadStepN_def Let_def invokeHandler_Inr_iff seekedCharFound_current
             split: if_splits prod.splits sum.splits)
  from f have v: "rs = ReadUntilValid" "readUntilPred i \<noteq> None"
    by (auto simp: seekedCharFound_iff)
  from startNextRead_exact[OF nx] s2 obtain k where
    "elQueue (el st') = elQueue (el st) @ (True, h, Success, nat (current i + 1 - start i))
        # map (zeroEntry True) (take k rest)"
    "\<forall>j\<in>set (take k rest). bufSize j = 0 \<and> handler j \<noteq> None" by auto
  with Some h v show ?thesis by blast
qed

lemma canReadLoopN_posts:
  "canReadLoopN D rs popped st = Inr st' \<Longrightarrow> popped = None \<Longrightarrow> queue st = i # rest \<Longrightarrow>
     (el st' = el st \<and>
      (\<exists>i'. queue st' = i' # rest \<and> handler i' = handler i \<and>
            readUntilPred i' = readUntilPred i \<and> start i' = start i \<and>
            bufSize i' = bufSize i)) \<or>
     (\<exists>h cnt k. rs = ReadUntilValid \<and> readUntilPred i \<noteq> None \<and> handler i = Some h \<and>
                elQueue (el st') =
                  elQueue (el st) @ (True, h, Success, cnt) # map (zeroEntry True) (take k rest) \<and>
                (\<forall>j\<in>set (take k rest). bufSize j = 0 \<and> handler j \<noteq> None))"
proof (induction D rs popped st arbitrary: st' i rule: canReadLoopN.induct)
  case (1 D rs popped st)
  show ?case
  proof (cases "canRead D (device st)")
    case False
    with "1.prems" show ?thesis by (simp add: canReadLoopN.simps)
  next
    case True
    with "1.prems" obtain p st1 where
      stp: "canReadStepN D rs st = Inr (p, st1)" and
      lp: "canReadLoopN D rs p st1 = Inr st'"
      by (cases "canReadStepN D rs st") (auto simp: canReadLoopN.simps[of D rs None st])
    from canReadStepN_cases[OF stp "1.prems"(3)] show ?thesis
    proof (elim disjE conjE exE)
      fix i'
      assume p: "p = None" and e: "el st1 = el st" and q: "queue st1 = i' # rest" and
        same: "handler i' = handler i" "readUntilPred i' = readUntilPred i"
          "start i' = start i" "bufSize i' = bufSize i"
      from "1.IH"(1)[OF _ "1.prems"(2) stp refl lp p q] True
      have "(el st' = el st1 \<and>
          (\<exists>i''. queue st' = i'' # rest \<and> handler i'' = handler i' \<and>
                readUntilPred i'' = readUntilPred i' \<and> start i'' = start i' \<and>
                bufSize i'' = bufSize i')) \<or>
        (\<exists>h cnt k. rs = ReadUntilValid \<and> readUntilPred i' \<noteq> None \<and> handler i' = Some h \<and>
                elQueue (el st') =
                  elQueue (el st1) @ (True, h, Success, cnt) # map (zeroEntry True) (take k rest) \<and>
                (\<forall>j\<in>set (take k rest). bufSize j = 0 \<and> handler j \<noteq> None))" by simp
      with e same show ?thesis by simp
    next
      fix i2 h k
      assume p: "p = Some i2" and hn: "handler i2 = None" and
        v: "rs = ReadUntilValid" "readUntilPred i \<noteq> None" "handler i = Some h" and
        e: "elQueue (el st1) =
              elQueue (el st) @ (True, h, Success, nat (current i + 1 - start i))
                # map (zeroEntry True) (take k rest)" and
        z: "\<forall>j\<in>set (take k rest). bufSize j = 0 \<and> handler j \<noteq> None"
      from lp p have "canReadLoopN D rs (Some i2) st1 = Inr st'" by simp
      from canReadLoopN_stale[OF this refl hn] have "el st' = el st1" by simp
      with e have "elQueue (el st') =
          elQueue (el st) @ (True, h, Success, nat (current i + 1 - start i))
            # map (zeroEntry True) (take k rest)" by simp
      with v z show ?thesis by blast
    qed
  qed
qed

lemma stepN_plainEntries:
  assumes "stepN D rs n ev st = Inr st'"
  shows "\<exists>ps. elQueue (el st') = elQueue (el st) @ ps \<and>
              plainEntries ev True (queue st @ requestsOf ev) ps"
proof -
  have submit: "\<exists>ps. elQueue (el st') = elQueue (el st) @ ps \<and>
      plainEntries ev True (queue st @ [newRequest buf sz pred func]) ps"
    if a: "asyncReadUntilN D n buf sz pred func st = Inr st'"
      and z: "\<forall>f j. bufSize j = 0 \<longrightarrow> plainStatus ev f j Success"
    for buf sz pred func
  proof -
    obtain susp d1 where sd: "suspend D (device st) = (susp, d1)"
      by (cases "suspend D (device st)")
    let ?st1 = "st\<lparr>device := d1, queue := queue st @ [newRequest buf sz pred func]\<rparr>"
    from a sd have
      "st' = ?st1\<lparr>device := resume D d1\<rparr> \<or>
       (queue st = [] \<and> startNextRead D False ?st1 = Inr st')"
      by (auto simp: asyncReadUntilN_def Let_def newRequest_def split: if_splits)
    then show ?thesis
    proof
      assume "st' = ?st1\<lparr>device := resume D d1\<rparr>"
      then have "elQueue (el st') = elQueue (el st) @ []" by simp
      then show ?thesis by (intro exI[of _ "[]"]) simp
    next
      assume b: "queue st = [] \<and> startNextRead D False ?st1 = Inr st'"
      from startNextRead_exact[of D False ?st1 st'] b obtain k where
        k: "elQueue (el st') =
              elQueue (el st) @ map (zeroEntry False) (take k [newRequest buf sz pred func])"
           "\<forall>j\<in>set (take k [newRequest buf sz pred func]). bufSize j = 0 \<and> handler j \<noteq> None"
        by auto
      from z have "\<forall>j. bufSize j = 0 \<longrightarrow> plainStatus ev False j Success"
        "\<forall>j. bufSize j = 0 \<longrightarrow> plainStatus ev True j Success" by simp_all
      from plainEntries_zero[OF this k(2)] k(1) b show ?thesis by auto
    qed
  qed
  show ?thesis
  proof (cases ev)
    case (AsyncRead buf sz func)
    with assms have "asyncReadUntilN D n buf sz None func st = Inr st'"
      by (simp add: asyncReadN_def)
    from submit[OF this] AsyncRead show ?thesis by simp
  next
    case (AsyncReadUntil buf sz pred func)
    with assms have "asyncReadUntilN D n buf sz pred func st = Inr st'" by simp
    from submit[OF this] AsyncReadUntil show ?thesis by simp
  next
    case CancelRead
    obtain c d1 where cd: "cancelRead D EventLoopContext (device st) = (c, d1)"
      by (cases "cancelRead D EventLoopContext (device st)")
    show ?thesis
    proof (cases c)
      case False
      with assms CancelRead cd have "el st' = el st"
        by (auto simp: dropResult_def cancelReadN_def Let_def split: if_splits)
      then have "elQueue (el st') = elQueue (el st) @ []" by simp
      then show ?thesis by (intro exI[of _ "[]"]) simp
    next
      case True
      with assms CancelRead cd obtain e' where
        fe: "cancelRead_for_each (el st) (queue st) = Inr e'" and e': "el st' = e'"
        by (auto simp: dropResult_def cancelReadN_def Let_def split: sum.splits)
      from cancelRead_for_each_Inr[OF fe] e' have
        "\<forall>j\<in>set (queue st). handler j \<noteq> None"
        "elQueue (el st') = elQueue (el st) @ map abortedEntry (queue st)" by auto
      with plainEntries_aborted[of "queue st" True] CancelRead show ?thesis by auto
    qed
  next
    case CanReadInterrupt
    with assms obtain i rest where q: "queue st = i # rest" and
      lp: "canReadLoopN D rs None st = Inr st'"
      by (cases "queue st") (auto simp: canReadInterruptHandlerN_def)
    from canReadLoopN_posts[OF lp refl q] show ?thesis
    proof (elim disjE conjE exE)
      assume "el st' = el st"
      then have "elQueue (el st') = elQueue (el st) @ []" by simp
      then show ?thesis by (intro exI[of _ "[]"]) simp
    next
      fix h cnt k
      assume v: "readUntilPred i \<noteq> None" "handler i = Some h" and
        e: "elQueue (el st') =
              elQueue (el st) @ (True, h, Success, cnt) # map (zeroEntry True) (take k rest)" and
        z: "\<forall>j\<in>set (take k rest). bufSize j = 0 \<and> handler j \<noteq> None"
      have "plainEntries CanReadInterrupt False rest (map (zeroEntry True) (take k rest))"
        by (rule plainEntries_zero[OF _ _ z]) simp_all
      with v have "plainEntries CanReadInterrupt True (i # rest)
          ((True, h, Success, cnt) # map (zeroEntry True) (take k rest))" by simp
      with e q CanReadInterrupt show ?thesis by auto
    qed
  next
    case (ReadCompleteInterrupt e)
    with assms obtain i rest where q: "queue st = i # rest" and
      r: "readCompleteInterruptHandlerN D rs e st = Inr st'"
      by (cases "queue st") (auto simp: readCompleteInterruptHandlerN_def)
    let ?code = "completeCode rs e (memory st (current i - 1)) i"
    from r q obtain h s2 where
      h: "handler i = Some h" and
      nx: "startNextRead D True s2 = Inr st'" and
      s2: "queue s2 = rest"
          "elQueue (el s2) = elQueue (el st) @ [(True, h, ?code, nat (current i - start i))]"
      by (auto simp: readCompleteInterruptHandlerN_def completeCode_def invokeHandler_Inr_iff
               split: if_splits sum.splits)
    from startNextRead_exact[OF nx] s2 obtain k where
      k: "elQueue (el st') =
            elQueue (el st) @ (True, h, ?code, nat (current i - start i))
              # map (zeroEntry True) (take k rest)"
         "\<forall>j\<in>set (take k rest). bufSize j = 0 \<and> handler j \<noteq> None" by auto
    have "plainEntries (ReadCompleteInterrupt e) False rest (map (zeroEntry True) (take k rest))"
      by (rule plainEntries_zero[OF _ _ k(2)]) simp_all
    moreover have "readUntilPred i = None \<longrightarrow> ?code = e"
      by (simp add: completeCode_cases)
    ultimately have "plainEntries (ReadCompleteInterrupt e) True (i # rest)
        ((True, h, ?code, nat (current i - start i)) # map (zeroEntry True) (take k rest))"
      using h by (simp add: statusOf_def)
    with k(1) q ReadCompleteInterrupt show ?thesis by auto
  next
    case (ReadHardware f)
    with assms have "elQueue (el st') = elQueue (el st) @ []" by auto
    then show ?thesis by (intro exI[of _ "[]"]) simp
  qed
qed

lemma canReadStep1_cases:
  assumes "canReadStep1 D rs sr = Inr sr1"
  shows "(el sr1 = el sr \<and> handler (rinfo sr1) = handler (rinfo sr) \<and>
          readUntilPred (rinfo sr1) = readUntilPred (rinfo sr) \<and>
          start (rinfo sr1) = start (rinfo sr) \<and> bufSize (rinfo sr1) = bufSize (rinfo sr)) \<or>
         (\<exists>h. handler (rinfo sr) = Some h \<and> rs = ReadUntilValid \<and>
              readUntilPred (rinfo sr) \<noteq> None \<and> handler (rinfo sr1) = None \<and>
              elQueue (el sr1) =
                elQueue (el sr)
                  @ [(True, h, Success, nat (current (rinfo sr) + 1 - start (rinfo sr)))])"
proof -
  obtain ch d1 where rd: "read D (device sr) = (ch, d1)" by (cases "read D (device sr)")
  obtain c d2 where cd: "cancelRead D InterruptContext d1 = (c, d2)"
    by (cases "cancelRead D InterruptContext d1")
  show ?thesis
  proof (cases "seekedCharFound rs ch (rinfo sr) \<and> c")
    case False
    with assms rd cd show ?thesis
      by (auto simp: canReadStep1_def Let_def seekedCharFound_current split: if_splits)
  next
    case True
    then have "rs = ReadUntilValid" "readUntilPred (rinfo sr) \<noteq> None"
      by (auto simp: seekedCharFound_iff)
    with True assms rd cd show ?thesis
      by (auto simp: canReadStep1_def Let_def seekedCharFound_current invokeHandler_Inr_iff
               split: if_splits sum.splits)
  qed
qed

lemma canReadInterruptHandler1_posts:
  "canReadInterruptHandler1 D rs sr = Inr sr' \<Longrightarrow>
     (el sr' = el sr \<and> handler (rinfo sr') = handler (rinfo sr) \<and>
      readUntilPred (rinfo sr') = readUntilPred (rinfo sr) \<and>
      start (rinfo sr') = start (rinfo sr) \<and> bufSize (rinfo sr') = bufSize (rinfo sr)) \<or>
     (\<exists>h cnt. handler (rinfo sr) = Some h \<and> rs = ReadUntilValid \<and>
              readUntilPred (rinfo sr) \<noteq> None \<and> handler (rinfo sr') = None \<and>
              elQueue (el sr') = elQueue (el sr) @ [(True, h, Success, cnt)])"
proof (induction D rs sr arbitrary: sr' rule: canReadInterruptHandler1.induct)
  case (1 D rs sr)
  show ?case
  proof (cases "canRead D (device sr)")
    case False
    with "1.prems" show ?thesis by (simp add: canReadInterruptHandler1.simps)
  next
    case True
    with "1.prems" obtain sr1 where
      stp: "canReadStep1 D rs sr = Inr sr1" and
      lp: "canReadInterruptHandler1 D rs sr1 = Inr sr'"
      by (auto simp: canReadInterruptHandler1.simps[of D rs sr] split: sum.splits)
    from "1.IH"[OF _ stp lp] True
    have ih: "(el sr' = el sr1 \<and> handler (rinfo sr') = handler (rinfo sr1) \<and>
        readUntilPred (rinfo sr') = readUntilPred (rinfo sr1) \<and>
        start (rinfo sr') = start (rinfo sr1) \<and> bufSize (rinfo sr') = bufSize (rinfo sr1)) \<or>
      (\<exists>h cnt. handler (rinfo sr1) = Some h \<and> rs = ReadUntilValid \<and>
              readUntilPred (rinfo sr1) \<noteq> None \<and> handler (rinfo sr') = None \<and>
              elQueue (el sr') = elQueue (el sr1) @ [(True, h, Success, cnt)])" by simp
    from canReadStep1_cases[OF stp] show ?thesis
    proof (elim disjE conjE exE)
      assume "el sr1 = el sr" "handler (rinfo sr1) = handler (rinfo sr)"
        "readUntilPred (rinfo sr1) = readUntilPred (rinfo sr)"
        "start (rinfo sr1) = start (rinfo sr)" "bufSize (rinfo sr1) = bufSize (rinfo sr)"
      with ih show ?thesis by simp
    next
      fix h
      assume v: "handler (rinfo sr) = Some h" "rs = ReadUntilValid"
        "readUntilPred (rinfo sr) \<noteq> None" and hn: "handler (rinfo sr1) = None" and
        e: "elQueue (el sr1) =
              elQueue (el sr)
                @ [(True, h, Success, nat (current (rinfo sr) + 1 - start (rinfo sr)))]"
      from ih hn have "el sr' = el sr1" "handler (rinfo sr') = None" by auto
      with e v show ?thesis by simp
    qed
  qed
qed

lemma step1_plainEntries:
  assumes "step1 D rs ev sr = Inr sr'"
  shows "\<exists>ps. elQueue (el sr') = elQueue (el sr) @ ps \<and>
              plainEntries ev True (slotRequests ev sr) ps"
proof -
  have submit: "\<exists>ps. elQueue (el sr') = elQueue (el sr) @ ps \<and>
      plainEntries ev True [newRequest buf sz pred func] ps"
    if a: "asyncReadUntil1 D buf sz pred func sr = Inr sr'"
      and z: "\<forall>j. bufSize j = 0 \<longrightarrow> plainStatus ev True j Success"
    for buf sz pred func
  proof (cases "sz = 0")
    case False
    with a have "elQueue (el sr') = elQueue (el sr) @ []"
      by (auto simp: asyncReadUntil1_def initRead_def Let_def split: if_splits)
    then show ?thesis by (intro exI[of _ "[]"]) simp
  next
    case True
    with a have "elQueue (el sr') =
        elQueue (el sr) @ [(False, func, zeroSizeCode pred, 0)]"
      by (auto simp: asyncReadUntil1_def initRead_def Let_def invokeHandler_Inr_iff
            zeroSizeCode_def split: if_splits sum.splits)
    moreover from True z
    have "plainEntries ev True [newRequest buf sz pred func] [(False, func, zeroSizeCode pred, 0)]"
      by (simp add: newRequest_def statusOf_def zeroSizeCode_def)
    ultimately show ?thesis by blast
  qed
  show ?thesis
  proof (cases ev)
    case (AsyncRead buf sz func)
    with assms have "asyncReadUntil1 D buf sz None func sr = Inr sr'"
      by (simp add: asyncRead1_def asyncReadUntil1_def)
    from submit[OF this] AsyncRead show ?thesis by (simp add: slotRequests_def)
  next
    case (AsyncReadUntil buf sz pred func)
    with assms have "asyncReadUntil1 D buf sz pred func sr = Inr sr'" by simp
    from submit[OF this] AsyncReadUntil show ?thesis by (simp add: slotRequests_def)
  next
    case CancelRead
    obtain c d1 where cd: "cancelRead D EventLoopContext (device sr) = (c, d1)"
      by (cases "cancelRead D EventLoopContext (device sr)")
    show ?thesis
    proof (cases c)
      case False
      with assms CancelRead cd have "elQueue (el sr') = elQueue (el sr) @ []"
        by (auto simp: dropResult_def cancelRead1_def Let_def split: if_splits)
      then show ?thesis by (intro exI[of _ "[]"]) simp
    next
      case True
      with assms CancelRead cd obtain h where
        "handler (rinfo sr) = Some h"
        "elQueue (el sr') =
           elQueue (el sr) @ [(False, h, Aborted, nat (current (rinfo sr) - start (rinfo sr)))]"
        by (auto simp: dropResult_def cancelRead1_def Let_def invokeHandler_Inr_iff
                 split: if_splits sum.splits)
      with CancelRead show ?thesis by (auto simp: slotRequests_def statusOf_def)
    qed
  next
    case CanReadInterrupt
    with assms have "canReadInterruptHandler1 D rs sr = Inr sr'" by simp
    from canReadInterruptHandler1_posts[OF this] show ?thesis
    proof (elim disjE conjE exE)
      assume "el sr' = el sr"
      then have "elQueue (el sr') = elQueue (el sr) @ []" by simp
      then show ?thesis by (intro exI[of _ "[]"]) simp
    next
      fix h cnt
      assume "handler (rinfo sr) = Some h" "readUntilPred (rinfo sr) \<noteq> None"
        "elQueue (el sr') = elQueue (el sr) @ [(True, h, Success, cnt)]"
      with CanReadInterrupt show ?thesis by (auto simp: slotRequests_def)
    qed
  next
    case (ReadCompleteInterrupt e)
    let ?code = "completeCode rs e (memory sr (current (rinfo sr) - 1)) (rinfo sr)"
    from assms ReadCompleteInterrupt obtain h where
      h: "handler (rinfo sr) = Some h" and
      e: "elQueue (el sr') =
            elQueue (el sr) @ [(True, h, ?code, nat (current (rinfo sr) - start (rinfo sr)))]"
      by (auto simp: readCompleteInterruptHandler1_def completeCode_def Let_def
            invokeHandler_Inr_iff split: if_splits sum.splits)
    have "readUntilPred (rinfo sr) = None \<longrightarrow> ?code = e"
      by (simp add: completeCode_cases)
    with h e ReadCompleteInterrupt show ?thesis
      by (auto simp: slotRequests_def statusOf_def)
  next
    case (ReadHardware f)
    with assms have "elQueue (el sr') = elQueue (el sr) @ []" by auto
    then show ?thesis by (intro exI[of _ "[]"]) simp
  qed
qed

text \<open>
  Claim C9 as stated fails in its last part: a request submitted with \<open>asyncRead\<close> also
  completes from \<open>cancelRead\<close>, with \<open>Aborted\<close>, which is neither the zero-size path nor
  the "read complete" interrupt.
\<close>

theorem async_read_completed_by_cancel:
  "completions (run1 uart ReadUntilValid cancelledRead init1) = Inr [(False, 1, Aborted, 0)]"
  by (simp add: completions_def cancelledRead_def init1_def emptyReadInfo_def uart_def
        idleUart_def emptyLoop_def asyncRead1_def initRead_def cancelRead1_def dropResult_def
        invokeHandler_def post_def Let_def)

text \<open>
  Claim C9, amended. \<open>asyncRead\<close> is \<open>asyncReadUntil\<close> with a null predicate, on both
  read engines. \<open>seekedCharFound\<close> is false whenever the predicate is null or the
  predicate facility is disabled. A request without a predicate never short-circuits:
  while it is at the front of the queue (or in the slot), the "can read" interrupt posts
  nothing and leaves it where it is with its handler, whatever waits behind it in the
  queue. And whatever the other requests of the queue carry, the entries an event posts
  complete the first requests of the queue (the request submitted by the event counted
  last), one entry each and in order, and a request without a predicate among them is
  completed in one of three ways only: with \<open>Success\<close> on the zero-size path, its size
  being zero (from its own submission, or when it comes to the front behind a request
  that completes); with the status the device reported, from the "read complete"
  interrupt, being the front request; or with \<open>Aborted\<close> from \<open>cancelRead\<close>.
\<close>

theorem async_read_is_read_until_without_predicate:
  "asyncReadN D n buf sz func st = asyncReadUntilN D n buf sz None func st \<and>
   asyncRead1 D buf sz func sr = asyncReadUntil1 D buf sz None func sr \<and>
   (rs = ReadUntilInvalid \<or> readUntilPred i = None \<longrightarrow> \<not> seekedCharFound rs ch i) \<and>
   (canReadInterruptHandlerN D rs st = Inr st' \<and> queue st = j # rest \<and>
    (rs = ReadUntilInvalid \<or> readUntilPred j = None) \<longrightarrow>
      el st' = el st \<and>
      (\<exists>j'. queue st' = j' # rest \<and> handler j' = handler j \<and>
            readUntilPred j' = readUntilPred j \<and> start j' = start j \<and>
            bufSize j' = bufSize j)) \<and>
   (canReadInterruptHandler1 D rs sr = Inr sr' \<and>
    (rs = ReadUntilInvalid \<or> readUntilPred (rinfo sr) = None) \<longrightarrow>
      el sr' = el sr \<and> handler (rinfo sr') = handler (rinfo sr) \<and>
      readUntilPred (rinfo sr') = readUntilPred (rinfo sr)) \<and>
   (stepN D rs n ev st = Inr st' \<longrightarrow>
      (\<exists>ps. elQueue (el st') = elQueue (el st) @ ps \<and>
            plainEntries ev True (queue st @ requestsOf ev) ps)) \<and>
   (step1 D rs ev sr = Inr sr' \<longrightarrow>
      (\<exists>ps. elQueue (el sr') = elQueue (el sr) @ ps \<and>
            plainEntries ev True (slotRequests ev sr) ps))"
proof (intro conjI impI)
  show "asyncReadN D n buf sz func st = asyncReadUntilN D n buf sz None func st"
    by (simp add: asyncReadN_def)
  show "asyncRead1 D buf sz func sr = asyncReadUntil1 D buf sz None func sr"
    by (simp add: asyncRead1_def asyncReadUntil1_def)
next
  assume "rs = ReadUntilInvalid \<or> readUntilPred i = None"
  then show "\<not> seekedCharFound rs ch i" by (auto simp: seekedCharFound_iff)
next
  assume a: "canReadInterruptHandlerN D rs st = Inr st' \<and> queue st = j # rest \<and>
    (rs = ReadUntilInvalid \<or> readUntilPred j = None)"
  then have lp: "canReadLoopN D rs None st = Inr st'" and q: "queue st = j # rest"
    and pl: "\<not> (rs = ReadUntilValid \<and> readUntilPred j \<noteq> None)"
    by (auto simp: canReadInterruptHandlerN_def)
  from canReadLoopN_posts[OF lp refl q] pl
  have r: "el st' = el st \<and>
      (\<exists>j'. queue st' = j' # rest \<and> handler j' = handler j \<and>
            readUntilPred j' = readUntilPred j \<and> start j' = start j \<and>
            bufSize j' = bufSize j)" by blast
  from r show "el st' = el st" by (rule conjunct1)
  from r show "\<exists>j'. queue st' = j' # rest \<and> handler j' = handler j \<and>
            readUntilPred j' = readUntilPred j \<and> start j' = start j \<and>
            bufSize j' = bufSize j" by (rule conjunct2)
next
  assume a: "canReadInterruptHandler1 D rs sr = Inr sr' \<and>
    (rs = ReadUntilInvalid \<or> readUntilPred (rinfo sr) = None)"
  then have lp: "canReadInterruptHandler1 D rs sr = Inr sr'"
    and pl: "\<not> (rs = ReadUntilValid \<and> readUntilPred (rinfo sr) \<noteq> None)" by auto
  from canReadInterruptHandler1_posts[OF lp] pl
  have r: "el sr' = el sr \<and> handler (rinfo sr') = handler (rinfo sr) \<and>
      readUntilPred (rinfo sr') = readUntilPred (rinfo sr)" by blast
  from r show "el sr' = el sr" by simp
  from r show "handler (rinfo sr') = handler (rinfo sr)" by simp
  from r show "readUntilPred (rinfo sr') = readUntilPred (rinfo sr)" by simp
next
  assume "stepN D rs n ev st = Inr st'"
  then show "\<exists>ps. elQueue (el st') = elQueue (el st) @ ps \<and>
      plainEntries ev True (queue st @ requestsOf ev) ps"
    by (rule stepN_plainEntries)
next
  assume "step1 D rs ev sr = Inr sr'"
  then show "\<exists>ps. elQueue (el sr') = elQueue (el sr) @ ps \<and>
      plainEntries ev True (slotRequests ev sr) ps"
    by (rule step1_plainEntries)
qed

theorem async_read_is_read_until_without_predicate_witness:
  "\<not> seekedCharFound ReadUntilValid (CHR 0x0A) (rinfo readInFlight1) \<and>
   \<not> seekedCharFound ReadUntilInvalid (CHR 0x0A) (rinfo delimiterNext1) \<and>
   (\<exists>sr'. canReadInterruptHandler1 uart ReadUntilInvalid delimiterNext1 = Inr sr' \<and>
          memory sr' 2 = CHR 0x0A \<and> elQueue (el sr') = [] \<and> handler (rinfo sr') = Some 1) \<and>
   (\<exists>st'. canReadInterruptHandlerN uart ReadUntilValid mixedQueueN = Inr st' \<and>
          memory st' 2 = CHR 0x0A \<and> elQueue (el st') = [] \<and>
          map handler (queue st') = [Some 1, Some 2]) \<and>
   (\<exists>st'. stepN uart ReadUntilValid 3 (ReadCompleteInterrupt (DeviceError 5)) mixedQueueN = Inr st' \<and>
          elQueue (el st') = [(True, 1, DeviceError 5, 2)] \<and>
          plainEntries (ReadCompleteInterrupt (DeviceError 5) :: (Uart, char, nat) ReadEvent) True
            (queue mixedQueueN) (elQueue (el st'))) \<and>
   (\<exists>sr'. step1 uart ReadUntilValid (ReadCompleteInterrupt (DeviceError 5)) readInFlight1 = Inr sr' \<and>
          elQueue (el sr') = [(True, 1, DeviceError 5, 2)] \<and>
          plainEntries (ReadCompleteInterrupt (DeviceError 5) :: (Uart, char, nat) ReadEvent) True
            [rinfo readInFlight1] (elQueue (el sr')))"
proof -
  note t = async_read_is_read_until_without_predicate[where D = uart and rs = ReadUntilValid]
  note t4 = t[THEN conjunct2, THEN conjunct2, THEN conjunct2]
  note t6 = t4[THEN conjunct2, THEN conjunct2]
  let ?f = "\<lparr>start = 0, current = 2, bufSize = 4, handler = Some (1::nat),
             readUntilPred = (None :: (char \<Rightarrow> bool) option)\<rparr>"
  let ?g = "\<lparr>start = 10, current = 10, bufSize = 3, handler = Some (2::nat),
             readUntilPred = Some isNewline\<rparr>"
  have "\<exists>st'. canReadInterruptHandlerN uart ReadUntilValid mixedQueueN = Inr st' \<and>
      memory st' 2 = CHR 0x0A"
    by (simp add: mixedQueueN_def uart_def armedUart_def idleUart_def emptyLoop_def
          canReadInterruptHandlerN_def canReadLoopN.simps canReadStepN_def Let_def)
  then obtain sa where
    ra: "canReadInterruptHandlerN uart ReadUntilValid mixedQueueN = Inr sa" and
    ma: "memory sa 2 = CHR 0x0A" by auto
  have qa: "queue mixedQueueN = ?f # [?g]" "readUntilPred ?f = None"
    by (simp_all add: mixedQueueN_def)
  from t4[THEN conjunct1, rule_format, of mixedQueueN sa ?f "[?g]"] ra qa
  have "el sa = el mixedQueueN \<and>
      (\<exists>j'. queue sa = j' # [?g] \<and> handler j' = handler ?f \<and>
            readUntilPred j' = readUntilPred ?f \<and> start j' = start ?f \<and>
            bufSize j' = bufSize ?f)" by simp
  then have "elQueue (el sa) = []" "map handler (queue sa) = [Some 1, Some 2]"
    by (auto simp: mixedQueueN_def emptyLoop_def)
  with ra ma have A: "\<exists>st'. canReadInterruptHandlerN uart ReadUntilValid mixedQueueN = Inr st' \<and>
      memory st' 2 = CHR 0x0A \<and> elQueue (el st') = [] \<and>
      map handler (queue st') = [Some 1, Some 2]"
    by (intro exI[of _ sa] conjI)
  let ?ev = "ReadCompleteInterrupt (DeviceError 5) :: (Uart, char, nat) ReadEvent"
  have "\<exists>st'. stepN uart ReadUntilValid 3 ?ev mixedQueueN = Inr st' \<and>
      elQueue (el st') = [(True, 1, DeviceError 5, 2)]"
    by (simp add: mixedQueueN_def readCompleteInterruptHandlerN_def startNextRead.simps
          invokeHandler_def postInterruptCtx_def emptyLoop_def isError_def Let_def)
  then obtain sb where
    rb: "stepN uart ReadUntilValid 3 ?ev mixedQueueN = Inr sb" and
    eb: "elQueue (el sb) = [(True, 1, DeviceError 5, 2)]" by auto
  from t6[THEN conjunct1, rule_format, OF rb] eb
  have "plainEntries ?ev True (queue mixedQueueN) (elQueue (el sb))"
    by (auto simp: mixedQueueN_def emptyLoop_def)
  with rb eb have B: "\<exists>st'. stepN uart ReadUntilValid 3 ?ev mixedQueueN = Inr st' \<and>
      elQueue (el st') = [(True, 1, DeviceError 5, 2)] \<and>
      plainEntries ?ev True (queue mixedQueueN) (elQueue (el st'))"
    by (intro exI[of _ sb] conjI)
  have "\<exists>sr'. step1 uart ReadUntilValid ?ev readInFlight1 = Inr sr' \<and>
      elQueue (el sr') = [(True, 1, DeviceError 5, 2)]"
    by (simp add: readInFlight1_def readCompleteInterruptHandler1_def
          invokeHandler_def postInterruptCtx_def emptyLoop_def isError_def Let_def)
  then obtain sc where
    rc: "step1 uart ReadUntilValid ?ev readInFlight1 = Inr sc" and
    ec: "elQueue (el sc) = [(True, 1, DeviceError 5, 2)]" by auto
  from t6[THEN conjunct2, rule_format, OF rc] ec
  have "plainEntries ?ev True [rinfo readInFlight1] (elQueue (el sc))"
    by (auto simp: readInFlight1_def emptyLoop_def slotRequests_def)
  with rc ec have C: "\<exists>sr'. step1 uart ReadUntilValid ?ev readInFlight1 = Inr sr' \<and>
      elQueue (el sr') = [(True, 1, DeviceError 5, 2)] \<and>
      plainEntries ?ev True [rinfo readInFlight1] (elQueue (el sr'))"
    by (intro exI[of _ sc] conjI)
  note u = async_read_is_read_until_without_predicate
  have "ReadUntilValid = ReadUntilInvalid \<or> readUntilPred (rinfo readInFlight1) = None"
    by (simp add: readInFlight1_def)
  from u[THEN conjunct2, THEN conjunct2, THEN conjunct1, rule_format, OF this]
  have P1: "\<not> seekedCharFound ReadUntilValid (CHR 0x0A) (rinfo readInFlight1)" .
  have "ReadUntilInvalid = ReadUntilInvalid \<or> readUntilPred (rinfo delimiterNext1) = None"
    by simp
  from u[THEN conjunct2, THEN conjunct2, THEN conjunct1, rule_format, OF this]
  have P2: "\<not> seekedCharFound ReadUntilInvalid (CHR 0x0A) (rinfo delimiterNext1)" .
  have "\<exists>sr'. canReadInterruptHandler1 uart ReadUntilInvalid delimiterNext1 = Inr sr' \<and>
      memory sr' 2 = CHR 0x0A"
    by (simp add: delimiterNext1_def uart_def armedUart_def idleUart_def emptyLoop_def
          canReadInterruptHandler1.simps canReadStep1_def Let_def)
  then obtain sd where
    rd: "canReadInterruptHandler1 uart ReadUntilInvalid delimiterNext1 = Inr sd" and
    md: "memory sd 2 = CHR 0x0A" by auto
  from u[THEN conjunct2, THEN conjunct2, THEN conjunct2, THEN conjunct2, THEN conjunct1,
      rule_format, of uart ReadUntilInvalid delimiterNext1 sd] rd
  have "el sd = el delimiterNext1 \<and> handler (rinfo sd) = handler (rinfo delimiterNext1) \<and>
      readUntilPred (rinfo sd) = readUntilPred (rinfo delimiterNext1)" by simp
  then have "elQueue (el sd) = []" "handler (rinfo sd) = Some 1"
    by (simp_all add: delimiterNext1_def emptyLoop_def)
  with rd md have P3: "\<exists>sr'. canReadInterruptHandler1 uart ReadUntilInvalid delimiterNext1 = Inr sr' \<and>
      memory sr' 2 = CHR 0x0A \<and> elQueue (el sr') = [] \<and> handler (rinfo sr') = Some 1"
    by (intro exI[of _ sd] conjI)
  from P1 P2 P3 A B C show ?thesis by (intro conjI)
qed

end
